theory Spec2Isabelle
  imports Complex_Main "HOL-Library.Multiset" "HOL-Library.AList" "HOL-Library.Product_Lexorder"
begin

section \<open>JavaScript numbers\<close>

text \<open>
  A JavaScript number is an IEEE 754 double, and every arithmetic operation on numbers returns
  the exact result rounded to the nearest double, a tie going to the double whose significand
  is even. A finite double is a rational number, so a number is read as the real it denotes,
  and \<open>fl\<close> is the rounding: a real \<open>x\<close> with \<open>2 ^ e \<le> \<bar>x\<bar> < 2 ^ (e + 1)\<close> is rounded to the
  nearest multiple of \<open>2 ^ (e - 52)\<close>. The exponent \<open>e\<close> is \<open>binade x\<close>, computed from the
  integer part of \<open>\<bar>x\<bar>\<close> or of its inverse. The range of the exponent is not bounded here:
  the scores below are quotients and products of counts and stay far away from overflow and
  from the subnormal numbers.
\<close>

function ilog2 :: "int \<Rightarrow> int" where
  "ilog2 n = (if n \<le> 1 then 0 else 1 + ilog2 (n div 2))"
  by pat_completeness auto
termination
  by (relation "measure nat") auto

declare ilog2.simps [simp del]

definition clog2 :: "int \<Rightarrow> int" where
  "clog2 n = (if n \<le> 1 then 0 else 1 + ilog2 (n - 1))"

definition pow2 :: "int \<Rightarrow> real" where
  "pow2 e = (if 0 \<le> e then 2 ^ nat e else 1 / 2 ^ nat (- e))"

definition binade :: "real \<Rightarrow> int" where
  "binade x = (if 1 \<le> \<bar>x\<bar> then ilog2 \<lfloor>\<bar>x\<bar>\<rfloor> else - clog2 \<lceil>1 / \<bar>x\<bar>\<rceil>)"

definition round_half_even :: "real \<Rightarrow> int" where
  "round_half_even y =
     (let f = \<lfloor>y\<rfloor>; r = y - of_int f
      in if r < 1 / 2 then f else if 1 / 2 < r then f + 1 else if even f then f else f + 1)"

definition fl :: "real \<Rightarrow> real" where
  "fl x = (if x = 0 then 0
           else let ulp = pow2 (binade x - 52) in of_int (round_half_even (x / ulp)) * ulp)"

text \<open>The operators \<open>+\<close>, \<open>-\<close>, \<open>*\<close> and \<open>/\<close> of JavaScript on two numbers.\<close>

definition dadd :: "real \<Rightarrow> real \<Rightarrow> real" where
  "dadd a b = fl (a + b)"

definition dsub :: "real \<Rightarrow> real \<Rightarrow> real" where
  "dsub a b = fl (a - b)"

definition dmul :: "real \<Rightarrow> real \<Rightarrow> real" where
  "dmul a b = fl (a * b)"

definition ddiv :: "real \<Rightarrow> real \<Rightarrow> real" where
  "ddiv a b = fl (a / b)"

text \<open>
  The unit roundoff of doubles, and a measure of distance for the error analysis: \<open>a\<close> is
  within \<open>k\<close> roundings of a non-negative \<open>x\<close>.
\<close>

definition unit_roundoff :: real where
  "unit_roundoff = 1 / 2 ^ 53"

definition close_to :: "nat \<Rightarrow> real \<Rightarrow> real \<Rightarrow> bool" where
  "close_to k a x \<longleftrightarrow>
     0 \<le> x \<and> x * (1 - unit_roundoff) ^ k \<le> a \<and> a \<le> x * (1 + unit_roundoff) ^ k"

subsection \<open>The rounding error\<close>

lemma ilog2_bounds:
  "1 \<le> n \<Longrightarrow> 0 \<le> ilog2 n \<and> 2 ^ nat (ilog2 n) \<le> n \<and> n < 2 * 2 ^ nat (ilog2 n)"
proof (induction n rule: ilog2.induct)
  case (1 n)
  show ?case
  proof (cases "n \<le> 1")
    case True
    with "1.prems" have "n = 1" by simp
    then show ?thesis by (simp add: ilog2.simps)
  next
    case False
    then have h: "1 \<le> n div 2" by simp
    from "1.IH" [OF False h] have ih: "0 \<le> ilog2 (n div 2)"
      "2 ^ nat (ilog2 (n div 2)) \<le> n div 2" "n div 2 < 2 * 2 ^ nat (ilog2 (n div 2))"
      by simp_all
    have e: "ilog2 n = 1 + ilog2 (n div 2)"
      using False by (subst ilog2.simps) simp
    have p: "(2::int) ^ nat (ilog2 n) = 2 * 2 ^ nat (ilog2 (n div 2))"
      using ih(1) by (simp add: e nat_add_distrib)
    from ih show ?thesis
      unfolding p by (simp add: e) linarith
  qed
qed

lemma clog2_bound: "1 \<le> n \<Longrightarrow> 0 \<le> clog2 n \<and> n \<le> 2 ^ nat (clog2 n)"
proof (cases "n \<le> 1")
  case True
  moreover assume "1 \<le> n"
  ultimately show ?thesis by (simp add: clog2_def)
next
  case False
  then have "1 \<le> n - 1" by simp
  from ilog2_bounds [OF this] have b: "0 \<le> ilog2 (n - 1)" "n - 1 < 2 * 2 ^ nat (ilog2 (n - 1))"
    by simp_all
  have "(2::int) ^ nat (clog2 n) = 2 * 2 ^ nat (ilog2 (n - 1))"
    using False b(1) by (simp add: clog2_def nat_add_distrib)
  with b False show ?thesis
    by (simp add: clog2_def)
qed

lemma pow2_pos: "0 < pow2 e"
  by (simp add: pow2_def)

lemma pow2_power_int: "pow2 e = 2 powi e"
  by (simp add: pow2_def power_int_def inverse_eq_divide power_one_over)

lemma pow2_shift: "pow2 (e - 52) * 2 ^ 52 = pow2 e"
proof -
  have "(2::real) powi (e - 52) * 2 powi 52 = 2 powi (e - 52 + 52)"
    by (rule power_int_add [symmetric]) simp
  then show ?thesis
    by (simp add: pow2_power_int)
qed

lemma pow2_binade_le:
  assumes "x \<noteq> 0"
  shows "pow2 (binade x) \<le> \<bar>x\<bar>"
proof (cases "1 \<le> \<bar>x\<bar>")
  case True
  then have "1 \<le> \<lfloor>\<bar>x\<bar>\<rfloor>" by simp
  from ilog2_bounds [OF this] have "0 \<le> ilog2 \<lfloor>\<bar>x\<bar>\<rfloor>"
    and "2 ^ nat (ilog2 \<lfloor>\<bar>x\<bar>\<rfloor>) \<le> \<lfloor>\<bar>x\<bar>\<rfloor>"
    by simp_all
  then have "pow2 (ilog2 \<lfloor>\<bar>x\<bar>\<rfloor>) \<le> of_int \<lfloor>\<bar>x\<bar>\<rfloor>"
    unfolding pow2_def by (simp only: if_True) (metis of_int_le_iff of_int_numeral of_int_power)
  also have "\<dots> \<le> \<bar>x\<bar>" by simp
  finally show ?thesis
    using True by (simp add: binade_def)
next
  case False
  define k where "k = clog2 \<lceil>1 / \<bar>x\<bar>\<rceil>"
  from False assms have inv: "1 < 1 / \<bar>x\<bar>" by simp
  then have "1 \<le> \<lceil>1 / \<bar>x\<bar>\<rceil>" by linarith
  from clog2_bound [OF this] have k0: "0 \<le> k" and "\<lceil>1 / \<bar>x\<bar>\<rceil> \<le> 2 ^ nat k"
    by (simp_all add: k_def)
  then have "real_of_int \<lceil>1 / \<bar>x\<bar>\<rceil> \<le> 2 ^ nat k"
    by (metis of_int_le_iff of_int_numeral of_int_power)
  then have "1 / \<bar>x\<bar> \<le> 2 ^ nat k"
    using le_of_int_ceiling [of "1 / \<bar>x\<bar>"] by linarith
  then have "1 / 2 ^ nat k \<le> \<bar>x\<bar>"
    using assms by (simp add: field_simps)
  moreover have "pow2 (- k) = 1 / 2 ^ nat k"
    using k0 by (cases "k = 0") (simp_all add: pow2_def)
  ultimately show ?thesis
    using False by (simp add: binade_def k_def)
qed

lemma round_half_even_error: "\<bar>of_int (round_half_even y) - y\<bar> \<le> 1 / 2"
proof -
  have "of_int \<lfloor>y\<rfloor> \<le> y" "y < of_int \<lfloor>y\<rfloor> + 1"
    by linarith+
  then show ?thesis
    by (auto simp: round_half_even_def Let_def)
qed

lemma round_half_even_nonneg: "0 \<le> y \<Longrightarrow> 0 \<le> round_half_even y"
  by (auto simp: round_half_even_def Let_def)

lemma fl_error: "\<bar>fl x - x\<bar> \<le> \<bar>x\<bar> * unit_roundoff"
proof (cases "x = 0")
  case True
  then show ?thesis by (simp add: fl_def)
next
  case False
  define ulp where "ulp = pow2 (binade x - 52)"
  have pos: "0 < ulp" by (simp add: ulp_def pow2_pos)
  have "ulp * 2 ^ 52 \<le> \<bar>x\<bar>"
    unfolding ulp_def pow2_shift by (rule pow2_binade_le [OF False])
  then have half: "ulp / 2 \<le> \<bar>x\<bar> * unit_roundoff"
    by (simp add: unit_roundoff_def field_simps)
  have "fl x - x = (of_int (round_half_even (x / ulp)) - x / ulp) * ulp"
    using False pos by (simp add: fl_def ulp_def Let_def field_simps)
  then have "\<bar>fl x - x\<bar> = \<bar>of_int (round_half_even (x / ulp)) - x / ulp\<bar> * ulp"
    using pos by (simp add: abs_mult)
  also have "\<dots> \<le> 1 / 2 * ulp"
    using round_half_even_error [of "x / ulp"] pos by (intro mult_right_mono) simp_all
  finally show ?thesis
    using half by simp
qed

lemma fl_nonneg: "0 \<le> x \<Longrightarrow> 0 \<le> fl x"
proof (cases "x = 0")
  case True
  then show ?thesis by (simp add: fl_def)
next
  case False
  assume "0 \<le> x"
  then have "0 \<le> x / pow2 (binade x - 52)"
    using pow2_pos [of "binade x - 52"] by simp
  from round_half_even_nonneg [OF this] show ?thesis
    using False pow2_pos [of "binade x - 52"] by (simp add: fl_def Let_def)
qed


lemma fl_zero [simp]: "fl 0 = 0"
  by (simp add: fl_def)

lemma fl_sign: "fl x \<le> 0 \<longleftrightarrow> x \<le> 0"
proof
  assume "fl x \<le> 0"
  show "x \<le> 0"
  proof (rule ccontr)
    assume "\<not> x \<le> 0"
    then have x: "0 < x" by simp
    from fl_error [of x] x have "x - x * unit_roundoff \<le> fl x"
      by (simp add: abs_le_iff)
    moreover have "0 < x * (1 - unit_roundoff)"
      using x by (simp add: unit_roundoff_def)
    ultimately have "0 < fl x"
      by (simp add: algebra_simps)
    with \<open>fl x \<le> 0\<close> show False by simp
  qed
next
  assume x: "x \<le> 0"
  from fl_error [of x] x have "fl x \<le> x - x * unit_roundoff"
    by (simp add: abs_le_iff)
  moreover have "x * (1 - unit_roundoff) \<le> 0"
    using x by (simp add: unit_roundoff_def mult_le_0_iff)
  ultimately show "fl x \<le> 0"
    by (simp add: algebra_simps)
qed

lemma dsub_sign: "dsub a b \<le> 0 \<longleftrightarrow> a \<le> b"
  by (simp add: dsub_def fl_sign)

lemma unit_roundoff_range: "0 < unit_roundoff" "unit_roundoff < 1"
  by (simp_all add: unit_roundoff_def)

lemma close_to_refl: "0 \<le> x \<Longrightarrow> close_to 0 x x"
  by (simp add: close_to_def)

lemma close_to_nonneg: "close_to k a x \<Longrightarrow> 0 \<le> a"
proof -
  assume c: "close_to k a x"
  then have "0 \<le> x * (1 - unit_roundoff) ^ k"
    using unit_roundoff_range by (simp add: close_to_def)
  with c show "0 \<le> a"
    by (simp add: close_to_def)
qed

lemma close_to_fl:
  assumes "close_to k a x"
  shows "close_to (Suc k) (fl a) x"
proof -
  from assms have x: "0 \<le> x" and lo: "x * (1 - unit_roundoff) ^ k \<le> a"
    and hi: "a \<le> x * (1 + unit_roundoff) ^ k"
    by (simp_all add: close_to_def)
  have a: "0 \<le> a" using assms by (rule close_to_nonneg)
  from fl_error [of a] a have "a * (1 - unit_roundoff) \<le> fl a" "fl a \<le> a * (1 + unit_roundoff)"
    by (simp_all add: abs_le_iff algebra_simps)
  moreover have "x * (1 - unit_roundoff) ^ k * (1 - unit_roundoff) \<le> a * (1 - unit_roundoff)"
    using lo unit_roundoff_range by (intro mult_right_mono) simp_all
  moreover have "a * (1 + unit_roundoff) \<le> x * (1 + unit_roundoff) ^ k * (1 + unit_roundoff)"
    using hi unit_roundoff_range by (intro mult_right_mono) simp_all
  ultimately have "x * (1 - unit_roundoff) ^ k * (1 - unit_roundoff) \<le> fl a"
    and "fl a \<le> x * (1 + unit_roundoff) ^ k * (1 + unit_roundoff)"
    by linarith+
  then have "x * (1 - unit_roundoff) ^ Suc k \<le> fl a"
    and "fl a \<le> x * (1 + unit_roundoff) ^ Suc k"
    by (simp_all only: power_Suc2 mult.assoc)
  with x show ?thesis
    by (simp only: close_to_def simp_thms)
qed

lemma close_to_mult:
  assumes "close_to k a x" and "0 \<le> c"
  shows "close_to k (a * c) (x * c)"
proof -
  from assms have "x * (1 - unit_roundoff) ^ k * c \<le> a * c"
    "a * c \<le> x * (1 + unit_roundoff) ^ k * c" "0 \<le> x * c"
    by (simp_all add: close_to_def mult_right_mono)
  then show ?thesis
    by (simp add: close_to_def mult.assoc mult.commute mult.left_commute)
qed

lemma close_to_divide:
  assumes "close_to k a x" and "0 < c"
  shows "close_to k (a / c) (x / c)"
  using close_to_mult [OF assms(1), of "1 / c"] assms(2) by simp

lemma close_to_weaken:
  assumes "close_to j b y" and "j \<le> k"
  shows "close_to k b y"
proof -
  from assms(1) have y: "0 \<le> y" and lo: "y * (1 - unit_roundoff) ^ j \<le> b"
    and hi: "b \<le> y * (1 + unit_roundoff) ^ j"
    by (simp_all add: close_to_def)
  have "(1 - unit_roundoff) ^ k \<le> (1 - unit_roundoff) ^ j"
    using assms(2) unit_roundoff_range by (intro power_decreasing) simp_all
  then have "y * (1 - unit_roundoff) ^ k \<le> y * (1 - unit_roundoff) ^ j"
    using y by (rule mult_left_mono)
  moreover have "(1 + unit_roundoff) ^ j \<le> (1 + unit_roundoff) ^ k"
    using assms(2) unit_roundoff_range by (intro power_increasing) simp_all
  then have "y * (1 + unit_roundoff) ^ j \<le> y * (1 + unit_roundoff) ^ k"
    using y by (rule mult_left_mono)
  ultimately show ?thesis
    using y lo hi by (simp add: close_to_def)
qed

lemma close_to_add:
  assumes "close_to k a x" and "close_to j b y" and "j \<le> k"
  shows "close_to k (a + b) (x + y)"
  using assms(1) close_to_weaken [OF assms(2,3)]
  by (simp add: close_to_def distrib_right)

lemma close_to_min:
  assumes "close_to k a x"
  shows "close_to k (min 100 a) (min 100 x)"
proof -
  from assms have x: "0 \<le> x" and lo: "x * (1 - unit_roundoff) ^ k \<le> a"
    and hi: "a \<le> x * (1 + unit_roundoff) ^ k"
    by (simp_all add: close_to_def)
  have d: "(1 - unit_roundoff) ^ k \<le> 1" "0 \<le> (1 - unit_roundoff) ^ k"
    using unit_roundoff_range by (simp_all add: power_le_one)
  have u: "1 \<le> (1 + unit_roundoff) ^ k"
    using unit_roundoff_range by (simp add: one_le_power)
  have "min 100 x * (1 - unit_roundoff) ^ k \<le> min 100 a"
  proof (rule min.boundedI)
    have "min 100 x * (1 - unit_roundoff) ^ k \<le> 100 * (1 - unit_roundoff) ^ k"
      using d by (intro mult_right_mono) simp_all
    also have "\<dots> \<le> 100" using d by simp
    finally show "min 100 x * (1 - unit_roundoff) ^ k \<le> 100" .
    have "min 100 x * (1 - unit_roundoff) ^ k \<le> x * (1 - unit_roundoff) ^ k"
      using d by (intro mult_right_mono) simp_all
    with lo show "min 100 x * (1 - unit_roundoff) ^ k \<le> a" by simp
  qed
  moreover have "min 100 a \<le> min 100 x * (1 + unit_roundoff) ^ k"
  proof (cases "x \<le> 100")
    case True
    then have "min 100 x = x" by simp
    with hi show ?thesis by (simp add: min.coboundedI2)
  next
    case False
    then have "min 100 x = 100" by simp
    moreover have "100 \<le> 100 * (1 + unit_roundoff) ^ k" using u by simp
    ultimately show ?thesis by (simp add: min.coboundedI1)
  qed
  ultimately show ?thesis
    using x by (simp add: close_to_def)
qed

lemma close_to_error:
  assumes "close_to k a x" and "k \<le> 4" and "x \<le> 100"
  shows "\<bar>a - x\<bar> \<le> 1 / 2 ^ 43"
proof -
  from close_to_weaken [OF assms(1,2)] have x: "0 \<le> x"
    and lo: "x * (1 - unit_roundoff) ^ 4 \<le> a" and hi: "a \<le> x * (1 + unit_roundoff) ^ 4"
    by (simp_all add: close_to_def)
  have n1: "(1 + unit_roundoff) ^ 4 - 1 \<le> 1 / (100 * 2 ^ 43)"
    and n2: "1 - (1 - unit_roundoff) ^ 4 \<le> 1 / (100 * 2 ^ 43)"
    unfolding unit_roundoff_def by code_simp+
  have "a - x \<le> x * ((1 + unit_roundoff) ^ 4 - 1)"
    using hi by (simp add: algebra_simps)
  also have "\<dots> \<le> 100 * (1 / (100 * 2 ^ 43))"
    using x assms(3) n1 unit_roundoff_range
    by (intro mult_mono) (simp_all add: one_le_power)
  finally have up: "a - x \<le> 1 / 2 ^ 43" by simp
  have "x - a \<le> x * (1 - (1 - unit_roundoff) ^ 4)"
    using lo by (simp add: algebra_simps)
  also have "\<dots> \<le> 100 * (1 / (100 * 2 ^ 43))"
    using x assms(3) n2 unit_roundoff_range
    by (intro mult_mono) (simp_all add: power_le_one)
  finally have "x - a \<le> 1 / 2 ^ 43" by simp
  with up show ?thesis by linarith
qed

lemma dmul_close: "close_to k a x \<Longrightarrow> 0 \<le> c \<Longrightarrow> close_to (Suc k) (dmul a c) (x * c)"
  unfolding dmul_def by (intro close_to_fl close_to_mult)

lemma ddiv_close: "close_to k a x \<Longrightarrow> 0 < c \<Longrightarrow> close_to (Suc k) (ddiv a c) (x / c)"
  unfolding ddiv_def by (intro close_to_fl close_to_divide)

lemma dadd_close:
  "close_to k a x \<Longrightarrow> 0 \<le> y \<Longrightarrow> close_to (Suc k) (dadd a y) (x + y)"
  unfolding dadd_def
  by (intro close_to_fl close_to_add [where j = 0] close_to_refl) simp_all

lemma scaled_share_close:
  fixes c t n :: nat
  assumes "0 < t"
  shows "\<bar>min 100 (dmul (dmul (ddiv (real c) (real t)) 100) (real n))
           - min 100 (real c / real t * 100 * real n)\<bar> \<le> 1 / 2 ^ 43"
proof -
  have "close_to 0 (real c) (real c)"
    by (rule close_to_refl) simp
  then have "close_to (Suc 0) (ddiv (real c) (real t)) (real c / real t)"
    by (rule ddiv_close) (simp add: assms)
  then have "close_to (Suc (Suc 0)) (dmul (ddiv (real c) (real t)) 100) (real c / real t * 100)"
    by (rule dmul_close) simp
  then have "close_to (Suc (Suc (Suc 0))) (dmul (dmul (ddiv (real c) (real t)) 100) (real n))
               (real c / real t * 100 * real n)"
    by (rule dmul_close) simp
  then have "close_to (Suc (Suc (Suc 0)))
               (min 100 (dmul (dmul (ddiv (real c) (real t)) 100) (real n)))
               (min 100 (real c / real t * 100 * real n))"
    by (rule close_to_min)
  then show ?thesis
    by (rule close_to_error) (simp_all add: eval_nat_numeral)
qed

lemma consistency_close:
  fixes c :: nat
  shows "\<bar>min 100 (dmul (ddiv (real c) 30) 100) - min 100 (real c / 30 * 100)\<bar> \<le> 1 / 2 ^ 43"
proof -
  have "close_to 0 (real c) (real c)"
    by (rule close_to_refl) simp
  then have "close_to (Suc 0) (ddiv (real c) 30) (real c / 30)"
    by (rule ddiv_close) simp
  then have "close_to (Suc (Suc 0)) (dmul (ddiv (real c) 30) 100) (real c / 30 * 100)"
    by (rule dmul_close) simp
  then have "close_to (Suc (Suc 0)) (min 100 (dmul (ddiv (real c) 30) 100))
               (min 100 (real c / 30 * 100))"
    by (rule close_to_min)
  then show ?thesis
    by (rule close_to_error) (simp_all add: eval_nat_numeral)
qed

lemma average_close:
  assumes "0 \<le> p" "p \<le> 100" "0 \<le> i" "i \<le> 100" "0 \<le> c" "c \<le> 100" "0 \<le> co" "co \<le> 100"
  shows "\<bar>ddiv (dadd (dadd (dadd p i) c) co) 4 - (p + i + c + co) / 4\<bar> \<le> 1 / 2 ^ 43"
proof -
  have "close_to 0 p p"
    using assms(1) by (rule close_to_refl)
  then have "close_to (Suc 0) (dadd p i) (p + i)"
    using assms(3) by (rule dadd_close)
  then have "close_to (Suc (Suc 0)) (dadd (dadd p i) c) (p + i + c)"
    using assms(5) by (rule dadd_close)
  then have "close_to (Suc (Suc (Suc 0))) (dadd (dadd (dadd p i) c) co) (p + i + c + co)"
    using assms(7) by (rule dadd_close)
  then have c4: "close_to (Suc (Suc (Suc (Suc 0)))) (ddiv (dadd (dadd (dadd p i) c) co) 4)
               ((p + i + c + co) / 4)"
    by (rule ddiv_close) simp
  have k: "Suc (Suc (Suc (Suc 0))) \<le> 4"
    by simp
  have b: "(p + i + c + co) / 4 \<le> 100"
    using assms by simp
  from c4 k b show ?thesis
    by (rule close_to_error)
qed


section \<open>Developer scorecards (DeveloperScorecard.tsx)\<close>

text \<open>
  The \<open>Developer\<close> interface. The three counters are counts of commits and of lines:
  integers, which are doubles and add up without rounding as long as they stay below
  \<open>2 ^ 53\<close>, so they are natural numbers here. \<open>contribution_score\<close> is a number, read as the
  real it denotes.
\<close>

record Developer =
  name :: string
  email :: string
  expertise_areas :: "string list"
  contribution_score :: real
  total_commits :: nat
  lines_added :: nat
  lines_removed :: nat

text \<open>\<open>ScorecardData extends Developer\<close>.\<close>

record ScorecardData = Developer +
  rank :: nat
  productivity_score :: real
  impact_score :: real
  consistency_score :: real
  collaboration_score :: real
  overall_grade :: string
  strengths :: "string list"
  improvements :: "string list"

text \<open>The union type of the \<open>sortBy\<close> state.\<close>

datatype SortBy = ContributionScore | TotalCommits | Productivity | Impact

text \<open>
  \<open>Array.prototype.sort\<close> with a comparator: the sort is stable, and an element \<open>x\<close> stays
  in front of a later element \<open>y\<close> unless the comparator is positive on \<open>(x, y)\<close>. Stable
  insertion from the right computes that order.
\<close>

fun insert_by :: "('a \<Rightarrow> 'a \<Rightarrow> real) \<Rightarrow> 'a \<Rightarrow> 'a list \<Rightarrow> 'a list" where
  "insert_by cmp x [] = [x]"
| "insert_by cmp x (y # ys) =
     (if cmp x y \<le> 0 then x # y # ys else y # insert_by cmp x ys)"

definition js_sort :: "('a \<Rightarrow> 'a \<Rightarrow> real) \<Rightarrow> 'a list \<Rightarrow> 'a list" where
  "js_sort cmp xs = foldr (insert_by cmp) xs []"

text \<open>The two \<open>switch\<close> tables that name a score as a strength or as an improvement.\<close>

definition strength_label :: "string \<Rightarrow> string" where
  "strength_label key =
     (if key = ''productivity'' then ''High Commit Frequency''
      else if key = ''impact'' then ''High Code Impact''
      else if key = ''consistency'' then ''Consistent Contributor''
      else if key = ''collaboration'' then ''Multi-domain Expertise''
      else key)"

definition improvement_label :: "string \<Rightarrow> string" where
  "improvement_label key =
     (if key = ''productivity'' then ''Increase Commit Frequency''
      else if key = ''impact'' then ''Expand Code Contributions''
      else if key = ''consistency'' then ''More Consistent Activity''
      else if key = ''collaboration'' then ''Diversify Expertise Areas''
      else key)"

text \<open>The chain of conditionals that turns the average of the four scores into a letter.\<close>

definition grade_of_average :: "real \<Rightarrow> string" where
  "grade_of_average average =
     (if average \<ge> 90 then ''A+''
      else if average \<ge> 80 then ''A''
      else if average \<ge> 70 then ''B+''
      else if average \<ge> 60 then ''B''
      else if average \<ge> 50 then ''C+''
      else if average \<ge> 40 then ''C''
      else ''D'')"

text \<open>
  The callback of the first \<open>developers.map\<close>: the scorecard of one developer, given the
  cohort, its two totals and the developer's index. Every division, multiplication, addition
  and subtraction is the rounded operation on doubles, in the order the code evaluates them:
  \<open>(commits / total) * 100 * developers.length\<close> rounds three times, and the average
  \<open>(productivity + impact + consistency + collaboration) / 4\<close> rounds after each of its three
  sums and after the division. \<open>Math.min\<close>, \<open>Math.max\<close> and the comparisons are exact, and so
  is \<open>expertise_areas.length * 25\<close>, a product of integers. \<open>Math.max(total, 1)\<close> keeps both
  divisions away from zero.
\<close>

definition scorecard_of ::
  "Developer list \<Rightarrow> nat \<Rightarrow> nat \<Rightarrow> nat \<Rightarrow> Developer \<Rightarrow> ScorecardData" where
  "scorecard_of developers totalCommits totalLinesChanged index dev =
     (let productivity =
            min 100 (dmul (dmul (ddiv (real (total_commits dev)) (real (max totalCommits 1))) 100)
                       (real (length developers)));
          impact =
            min 100 (dmul (dmul (ddiv (real (lines_added dev + lines_removed dev))
                                   (real (max totalLinesChanged 1))) 100)
                       (real (length developers)));
          consistency =
            (if total_commits dev > 0
             then min 100 (dmul (ddiv (real (total_commits dev)) 30) 100)
             else 0);
          collaboration = min 100 (real (length (expertise_areas dev) * 25));
          average = ddiv (dadd (dadd (dadd productivity impact) consistency) collaboration) 4;
          scores = [(''productivity'', productivity), (''impact'', impact),
                    (''consistency'', consistency), (''collaboration'', collaboration)];
          sortedScores = js_sort (\<lambda>a b. dsub (snd b) (snd a)) scores
      in \<lparr> name = name dev, email = email dev, expertise_areas = expertise_areas dev,
           contribution_score = contribution_score dev, total_commits = total_commits dev,
           lines_added = lines_added dev, lines_removed = lines_removed dev,
           rank = index + 1,
           productivity_score = productivity,
           impact_score = impact,
           consistency_score = consistency,
           collaboration_score = collaboration,
           overall_grade = grade_of_average average,
           strengths = map (\<lambda>e. strength_label (fst e)) (take 2 sortedScores),
           improvements =
             map (\<lambda>e. improvement_label (fst e))
               (drop (length sortedScores - 2) sortedScores) \<rparr>)"

text \<open>The comparator of the ranking sort, one case per \<open>sortBy\<close> value.\<close>

definition compare_by :: "SortBy \<Rightarrow> ScorecardData \<Rightarrow> ScorecardData \<Rightarrow> real" where
  "compare_by sortBy a b =
     (case sortBy of
        ContributionScore \<Rightarrow> dsub (contribution_score b) (contribution_score a)
      | TotalCommits \<Rightarrow> dsub (real (total_commits b)) (real (total_commits a))
      | Productivity \<Rightarrow> dsub (productivity_score b) (productivity_score a)
      | Impact \<Rightarrow> dsub (impact_score b) (impact_score a))"

text \<open>The two \<open>reduce\<close> calls over the cohort.\<close>

definition totalCommits_of :: "Developer list \<Rightarrow> nat" where
  "totalCommits_of developers = foldl (\<lambda>sum dev. sum + total_commits dev) 0 developers"

definition totalLinesChanged_of :: "Developer list \<Rightarrow> nat" where
  "totalLinesChanged_of developers =
     foldl (\<lambda>sum dev. sum + lines_added dev + lines_removed dev) 0 developers"

text \<open>The list before sorting: every developer scored, in input order.\<close>

definition scored_developers :: "Developer list \<Rightarrow> ScorecardData list" where
  "scored_developers developers =
     map (\<lambda>(index, dev).
            scorecard_of developers (totalCommits_of developers)
              (totalLinesChanged_of developers) index dev)
       (enumerate 0 developers)"

text \<open>The whole \<open>scorecards\<close> memo: score, sort by the chosen field, renumber the ranks.\<close>

definition scorecards :: "Developer list \<Rightarrow> SortBy \<Rightarrow> ScorecardData list" where
  "scorecards developers sortBy =
     map (\<lambda>(index, dev). dev\<lparr>rank := index + 1\<rparr>)
       (enumerate 0 (js_sort (compare_by sortBy) (scored_developers developers)))"

text \<open>
  The value the ranking sort orders by, as a function of the scorecard: the comparator is
  the difference of this value at its two arguments, and a rounded difference has the sign of
  the exact one.
\<close>

definition sort_value :: "SortBy \<Rightarrow> ScorecardData \<Rightarrow> real" where
  "sort_value sortBy s =
     (case sortBy of
        ContributionScore \<Rightarrow> contribution_score s
      | TotalCommits \<Rightarrow> real (total_commits s)
      | Productivity \<Rightarrow> productivity_score s
      | Impact \<Rightarrow> impact_score s)"

text \<open>
  A cohort of ten: one developer with 9 of the 10 commits and 9 of the 10 changed lines, one
  with the remaining commit and line, and eight without any.
\<close>

definition lead_developer :: Developer where
  "lead_developer =
     \<lparr> name = ''Ada'', email = ''ada@example.org'', expertise_areas = [''Backend'', ''DevOps''],
       contribution_score = 80, total_commits = 9, lines_added = 5, lines_removed = 4 \<rparr>"

definition minor_developer :: Developer where
  "minor_developer =
     \<lparr> name = ''Bob'', email = ''bob@example.org'', expertise_areas = [''Docs''],
       contribution_score = 20, total_commits = 1, lines_added = 1, lines_removed = 0 \<rparr>"

definition idle_developer :: Developer where
  "idle_developer =
     \<lparr> name = ''Eve'', email = ''eve@example.org'', expertise_areas = [],
       contribution_score = 20, total_commits = 0, lines_added = 0, lines_removed = 0 \<rparr>"

definition cohort_of_ten :: "Developer list" where
  "cohort_of_ten = lead_developer # minor_developer # replicate 8 idle_developer"

text \<open>
  Two cohorts of three developers with equal work: one commit and one changed line each, and
  thirty commits and no changed line each.
\<close>

definition one_commit_developer :: Developer where
  "one_commit_developer =
     \<lparr> name = ''Kim'', email = ''kim@example.org'', expertise_areas = [],
       contribution_score = 10, total_commits = 1, lines_added = 1, lines_removed = 0 \<rparr>"

definition three_equal :: "Developer list" where
  "three_equal = replicate 3 one_commit_developer"

definition thirty_commit_developer :: Developer where
  "thirty_commit_developer =
     \<lparr> name = ''Sam'', email = ''sam@example.org'', expertise_areas = [],
       contribution_score = 10, total_commits = 30, lines_added = 0, lines_removed = 0 \<rparr>"

definition thirty_each :: "Developer list" where
  "thirty_each = replicate 3 thirty_commit_developer"

subsection \<open>Properties of the scorecards\<close>

lemma foldl_add_sum: "foldl (\<lambda>sum x. sum + f x) a xs = a + sum_list (map f xs)"
  by (induction xs arbitrary: a) (simp_all add: add.assoc)

lemma totalCommits_of_sum: "totalCommits_of developers = sum_list (map total_commits developers)"
  by (simp add: totalCommits_of_def foldl_add_sum)

lemma totalLinesChanged_of_sum:
  "totalLinesChanged_of developers
     = sum_list (map (\<lambda>dev. lines_added dev + lines_removed dev) developers)"
proof -
  have "foldl (\<lambda>sum dev. sum + lines_added dev + lines_removed dev) 0 developers
          = foldl (\<lambda>sum dev. sum + (lines_added dev + lines_removed dev)) 0 developers"
    by (simp add: add.assoc)
  then show ?thesis
    by (simp add: totalLinesChanged_of_def foldl_add_sum)
qed

lemma insert_by_insort:
  "insert_by (\<lambda>a b. key b - key a) x ys = insort_key (\<lambda>s. - key s) x ys"
  by (induction ys) simp_all

lemma js_sort_sort_key:
  "js_sort (\<lambda>a b. key b - key a) xs = sort_key (\<lambda>s. - key s) xs"
  by (induction xs) (simp_all add: js_sort_def insert_by_insort sort_key_def)

lemma set_insert_by: "set (insert_by cmp x ys) = insert x (set ys)"
  by (induction ys) auto

lemma set_js_sort: "set (js_sort cmp xs) = set xs"
  by (induction xs) (simp_all add: js_sort_def set_insert_by)

lemma length_insert_by: "length (insert_by cmp x ys) = Suc (length ys)"
  by (induction ys) auto

lemma length_js_sort: "length (js_sort cmp xs) = length xs"
  by (induction xs) (simp_all add: js_sort_def length_insert_by)

lemma insert_by_sign:
  assumes "\<And>a b. cmp a b \<le> 0 \<longleftrightarrow> cmp' a b \<le> 0"
  shows "insert_by cmp x ys = insert_by cmp' x ys"
  by (induction ys) (simp_all add: assms)

lemma js_sort_sign:
  assumes "\<And>a b. cmp a b \<le> 0 \<longleftrightarrow> cmp' a b \<le> 0"
  shows "js_sort cmp xs = js_sort cmp' xs"
  by (induction xs) (simp_all add: js_sort_def insert_by_sign [OF assms])

lemma compare_by_sort_value:
  "js_sort (compare_by sortBy) xs
     = js_sort (\<lambda>a b. sort_value sortBy b - sort_value sortBy a) xs"
  by (rule js_sort_sign) (cases sortBy; simp add: compare_by_def sort_value_def dsub_sign)

lemma set_map_enumerate:
  "set (map (\<lambda>(i, x). g i x) (enumerate n xs)) \<subseteq> {g i x | i x. x \<in> set xs}"
  by (auto simp: enumerate_eq_zip dest: set_zip_rightD)

lemma map_enumerate_indep:
  assumes "\<And>i x. f (g i x) = h x"
  shows "map f (map (\<lambda>(i, x). g i x) (enumerate n xs)) = map h xs"
  using assms by (induction xs arbitrary: n) simp_all

lemma filter_enumerate_indep:
  assumes "\<And>i x. f (g i x) = h x" and "\<And>i x. P (g i x) = Q x"
  shows "map f (filter P (map (\<lambda>(i, x). g i x) (enumerate n xs))) = map h (filter Q xs)"
  using assms by (induction xs arbitrary: n) simp_all

lemma map_rank_enumerate:
  "map rank (map (\<lambda>(index, dev). dev\<lparr>rank := index + 1\<rparr>) (enumerate n xs))
     = [Suc n ..< Suc (n + length xs)]"
  by (induction xs arbitrary: n) (simp_all add: upt_rec)

lemma truncate_scorecard_of [simp]:
  "Developer.truncate (scorecard_of developers t l i dev) = dev"
  by (simp add: scorecard_of_def Developer.truncate_def Let_def)

lemma truncate_rank_update [simp]:
  "Developer.truncate (s\<lparr>rank := r\<rparr>) = Developer.truncate s"
  by (simp add: Developer.truncate_def)

lemma sort_value_rank_update [simp]:
  "sort_value sortBy (s\<lparr>rank := r\<rparr>) = sort_value sortBy s"
  by (cases sortBy) (simp_all add: sort_value_def)

lemma truncate_scored: "map Developer.truncate (scored_developers developers) = developers"
  unfolding scored_developers_def
  by (subst map_enumerate_indep [where h = "\<lambda>d. d"]) simp_all

lemma rerank_indep:
  assumes "\<And>r s. k (s\<lparr>rank := r\<rparr>) = k s"
  shows "map k (map (\<lambda>(index, dev). dev\<lparr>rank := index + 1\<rparr>) (enumerate n xs)) = map k xs"
  by (rule map_enumerate_indep) (simp add: assms)

lemma scorecards_sorted:
  "sorted_wrt (\<lambda>a b. sort_value sortBy a \<ge> sort_value sortBy b) (scorecards developers sortBy)"
proof -
  let ?ys = "js_sort (compare_by sortBy) (scored_developers developers)"
  have "sorted (map (\<lambda>s. - sort_value sortBy s) ?ys)"
    by (simp add: compare_by_sort_value js_sort_sort_key)
  then have "sorted_wrt (\<lambda>a b. a \<ge> b) (map (sort_value sortBy) ?ys)"
    by (simp add: sorted_map sorted_wrt_map)
  then have "sorted_wrt (\<lambda>a b. a \<ge> b) (map (sort_value sortBy) (scorecards developers sortBy))"
    unfolding scorecards_def by (simp only: rerank_indep [of "sort_value sortBy", OF sort_value_rank_update])
  then show ?thesis
    by (simp add: sorted_wrt_map)
qed

lemma scorecards_mset:
  "mset (map Developer.truncate (scorecards developers sortBy)) = mset developers"
proof -
  let ?ys = "js_sort (compare_by sortBy) (scored_developers developers)"
  have "map Developer.truncate (scorecards developers sortBy) = map Developer.truncate ?ys"
    unfolding scorecards_def by (rule rerank_indep) simp
  moreover have "mset ?ys = mset (scored_developers developers)"
    by (simp add: compare_by_sort_value js_sort_sort_key)
  ultimately show ?thesis
    by (metis mset_map truncate_scored)
qed

lemma scorecards_stable:
  "map Developer.truncate (filter (\<lambda>s. sort_value sortBy s = v) (scorecards developers sortBy))
     = map Developer.truncate
         (filter (\<lambda>s. sort_value sortBy s = v) (scored_developers developers))"
proof -
  let ?ys = "js_sort (compare_by sortBy) (scored_developers developers)"
  have "map Developer.truncate (filter (\<lambda>s. sort_value sortBy s = v) (scorecards developers sortBy))
          = map Developer.truncate (filter (\<lambda>s. sort_value sortBy s = v) ?ys)"
    unfolding scorecards_def by (rule filter_enumerate_indep) simp_all
  moreover have "filter (\<lambda>s. - sort_value sortBy s = - v) ?ys
                   = filter (\<lambda>s. - sort_value sortBy s = - v) (scored_developers developers)"
    unfolding compare_by_sort_value js_sort_sort_key by (rule sort_key_stable)
  ultimately show ?thesis
    by simp
qed

lemma scorecards_ranks:
  "map rank (scorecards developers sortBy) = [1 ..< Suc (length developers)]"
proof -
  have "length (scored_developers developers) = length developers"
    by (simp add: scored_developers_def)
  moreover have "map rank (scorecards developers sortBy)
          = [Suc 0 ..< Suc (0 + length (js_sort (compare_by sortBy) (scored_developers developers)))]"
    unfolding scorecards_def by (rule map_rank_enumerate)
  ultimately show ?thesis
    by (simp only: length_js_sort add_0 One_nat_def)
qed

lemma scorecards_elem:
  assumes "s \<in> set (scorecards developers sortBy)"
  shows "\<exists>dev i r. dev \<in> set developers \<and>
           s = (scorecard_of developers (totalCommits_of developers)
                  (totalLinesChanged_of developers) i dev)\<lparr>rank := r\<rparr>"
proof -
  from assms obtain j t where t: "t \<in> set (js_sort (compare_by sortBy) (scored_developers developers))"
      and s: "s = t\<lparr>rank := j + 1\<rparr>"
    using set_map_enumerate [of "\<lambda>index dev. dev\<lparr>rank := index + 1\<rparr>" 0]
    unfolding scorecards_def by blast
  from t have "t \<in> set (scored_developers developers)"
    by (simp add: set_js_sort)
  then obtain i dev where "dev \<in> set developers"
      and "t = scorecard_of developers (totalCommits_of developers)
                 (totalLinesChanged_of developers) i dev"
    using set_map_enumerate [of "\<lambda>index dev. scorecard_of developers (totalCommits_of developers)
              (totalLinesChanged_of developers) index dev" 0 developers]
    unfolding scored_developers_def by blast
  with s show ?thesis by blast
qed

lemma in_map_enumerate:
  assumes "x \<in> set xs"
  shows "\<exists>i. g i x \<in> set (map (\<lambda>(i, x). g i x) (enumerate n xs))"
proof -
  from assms obtain k where "k < length xs" and "xs ! k = x"
    by (auto simp: in_set_conv_nth)
  then have "(n + k, x) \<in> set (enumerate n xs)"
    by (simp add: in_set_enumerate_eq)
  then have "g (n + k) x \<in> set (map (\<lambda>(i, x). g i x) (enumerate n xs))"
    by force
  then show ?thesis ..
qed

lemma scorecards_contains:
  assumes "dev \<in> set developers"
  shows "\<exists>i r. (scorecard_of developers (totalCommits_of developers)
                   (totalLinesChanged_of developers) i dev)\<lparr>rank := r\<rparr>
                 \<in> set (scorecards developers sortBy)"
proof -
  from in_map_enumerate [OF assms, of "\<lambda>index dev. scorecard_of developers (totalCommits_of developers)
      (totalLinesChanged_of developers) index dev" 0]
  obtain i where "scorecard_of developers (totalCommits_of developers)
      (totalLinesChanged_of developers) i dev \<in> set (scored_developers developers)"
    unfolding scored_developers_def by blast
  then have "scorecard_of developers (totalCommits_of developers)
      (totalLinesChanged_of developers) i dev
        \<in> set (js_sort (compare_by sortBy) (scored_developers developers))"
    by (simp only: set_js_sort)
  from in_map_enumerate [OF this, of "\<lambda>index dev. dev\<lparr>rank := index + 1\<rparr>" 0]
  show ?thesis
    unfolding scorecards_def by blast
qed

lemma length_scorecards: "length (scorecards developers sortBy) = length developers"
  by (simp add: scorecards_def scored_developers_def length_js_sort)

lemma hd_scorecards:
  assumes "developers \<noteq> []"
  shows "\<exists>dev i r. dev \<in> set developers \<and>
           hd (scorecards developers sortBy)
             = (scorecard_of developers (totalCommits_of developers)
                  (totalLinesChanged_of developers) i dev)\<lparr>rank := r\<rparr>"
proof -
  from assms have "scorecards developers sortBy \<noteq> []"
    using length_scorecards [of developers sortBy] by auto
  then have "hd (scorecards developers sortBy) \<in> set (scorecards developers sortBy)"
    by simp
  then show ?thesis
    by (rule scorecards_elem)
qed

lemma dmul_nonneg: "0 \<le> a \<Longrightarrow> 0 \<le> b \<Longrightarrow> 0 \<le> dmul a b"
  by (simp add: dmul_def fl_nonneg)

lemma ddiv_nonneg: "0 \<le> a \<Longrightarrow> 0 \<le> b \<Longrightarrow> 0 \<le> ddiv a b"
  by (simp add: ddiv_def fl_nonneg)

lemma scorecard_of_range:
  fixes s :: ScorecardData
  assumes "s = (scorecard_of developers t l i dev)\<lparr>rank := r\<rparr>"
  shows "0 \<le> productivity_score s" "productivity_score s \<le> 100"
    "0 \<le> impact_score s" "impact_score s \<le> 100"
    "0 \<le> consistency_score s" "consistency_score s \<le> 100"
    "0 \<le> collaboration_score s" "collaboration_score s \<le> 100"
  unfolding assms by (simp_all add: scorecard_of_def Let_def dmul_nonneg ddiv_nonneg)

lemma ninety_share:
  fixes c t :: nat
  assumes "0 < t" and "10 * c = 9 * t"
  shows "min 100 (dmul (dmul (ddiv (real c) (real t)) 100) 10) = 100"
proof -
  from assms(2) have "10 * real c = 9 * real t"
    by (metis of_nat_mult of_nat_numeral)
  then have "real c / real t = 9 / 10"
    using assms(1) by (simp add: field_simps)
  then have "ddiv (real c) (real t) = ddiv 9 10"
    by (simp only: ddiv_def)
  moreover have "min 100 (dmul (dmul (ddiv 9 10) 100) 10) = 100"
    by code_simp
  ultimately show ?thesis
    by (simp only:)
qed

text \<open>
  Claim C3, as the code computes it. For every scorecard \<open>s\<close> of a cohort (which is then
  non-empty), with \<open>T\<close> the cohort's total commits, \<open>L\<close> its total changed lines and \<open>n\<close> its
  size: \<open>productivity_score\<close> is \<open>min(100, commits / T * 100 * n)\<close> and \<open>impact_score\<close> is
  \<open>min(100, lines / L * 100 * n)\<close>, evaluated from left to right in doubles, each operation
  rounded (both are 0 when the total is 0, where the code divides by 1); \<open>consistency_score\<close>
  is \<open>min(100, commits / 30 * 100)\<close>, evaluated likewise, for a developer with at least one
  commit and 0 otherwise; \<open>collaboration_score = min(100, 25 * areas)\<close>. Each of the three
  rounded scores is within \<open>2 ^ -43\<close> of the exact value of its formula; every score is at
  most 100; and a developer with 90% of the commits (of the lines) in a cohort of ten has
  \<open>productivity_score\<close> (\<open>impact_score\<close>) exactly 100.
\<close>

theorem component_scores:
  assumes "s \<in> set (scorecards developers sortBy)"
  shows "(let T = sum_list (map total_commits developers);
              L = sum_list (map (\<lambda>dev. lines_added dev + lines_removed dev) developers);
              n = length developers
          in (0 < T \<longrightarrow>
                productivity_score s
                  = min 100 (dmul (dmul (ddiv (real (total_commits s)) (real T)) 100) (real n)))
           \<and> (T = 0 \<longrightarrow> productivity_score s = 0)
           \<and> (0 < L \<longrightarrow>
                impact_score s
                  = min 100 (dmul (dmul (ddiv (real (lines_added s + lines_removed s)) (real L))
                                     100) (real n)))
           \<and> (L = 0 \<longrightarrow> impact_score s = 0)
           \<and> consistency_score s
                = (if 1 \<le> total_commits s
                   then min 100 (dmul (ddiv (real (total_commits s)) 30) 100) else 0)
           \<and> collaboration_score s = min 100 (25 * real (length (expertise_areas s)))
           \<and> (0 < T \<longrightarrow>
                \<bar>productivity_score s
                   - min 100 (real (total_commits s) / real T * 100 * real n)\<bar> \<le> 1 / 2 ^ 43)
           \<and> (0 < L \<longrightarrow>
                \<bar>impact_score s
                   - min 100 (real (lines_added s + lines_removed s) / real L * 100 * real n)\<bar>
                  \<le> 1 / 2 ^ 43)
           \<and> \<bar>consistency_score s - min 100 (real (total_commits s) / 30 * 100)\<bar> \<le> 1 / 2 ^ 43
           \<and> productivity_score s \<le> 100 \<and> impact_score s \<le> 100
           \<and> consistency_score s \<le> 100 \<and> collaboration_score s \<le> 100
           \<and> (n = 10 \<and> 0 < T \<and> 10 * total_commits s = 9 * T
                \<longrightarrow> productivity_score s = 100)
           \<and> (n = 10 \<and> 0 < L \<and> 10 * (lines_added s + lines_removed s) = 9 * L
                \<longrightarrow> impact_score s = 100))"
proof -
  define T where "T = sum_list (map total_commits developers)"
  define L where "L = sum_list (map (\<lambda>dev. lines_added dev + lines_removed dev) developers)"
  define n where "n = length developers"
  from scorecards_elem [OF assms] obtain dev i r where dev: "dev \<in> set developers"
    and s: "s = (scorecard_of developers T L i dev)\<lparr>rank := r\<rparr>"
    unfolding T_def L_def totalCommits_of_sum totalLinesChanged_of_sum by blast
  have c_le: "total_commits dev \<le> T"
    unfolding T_def using dev by (simp add: member_le_sum_list)
  have l_le: "lines_added dev + lines_removed dev \<le> L"
    unfolding L_def using dev member_le_sum_list [of "lines_added dev + lines_removed dev"
      "map (\<lambda>dev. lines_added dev + lines_removed dev) developers"] by auto
  have p: "productivity_score s
             = min 100 (dmul (dmul (ddiv (real (total_commits dev)) (real (max T 1))) 100) (real n))"
    and i: "impact_score s
              = min 100 (dmul (dmul (ddiv (real (lines_added dev + lines_removed dev))
                                       (real (max L 1))) 100) (real n))"
    and c: "consistency_score s
              = (if 0 < total_commits dev
                 then min 100 (dmul (ddiv (real (total_commits dev)) 30) 100) else 0)"
    and co: "collaboration_score s = min 100 (real (length (expertise_areas dev) * 25))"
    and f: "total_commits s = total_commits dev" "lines_added s = lines_added dev"
      "lines_removed s = lines_removed dev" "expertise_areas s = expertise_areas dev"
    by (simp_all add: s scorecard_of_def Let_def n_def)
  have mT: "0 < T \<Longrightarrow> max T 1 = T" and mL: "0 < L \<Longrightarrow> max L 1 = L"
    by (auto simp: max_def)
  have p1: "0 < T \<longrightarrow>
              productivity_score s
                = min 100 (dmul (dmul (ddiv (real (total_commits s)) (real T)) 100) (real n))"
    by (simp only: p f) (simp add: mT)
  have p0: "T = 0 \<longrightarrow> productivity_score s = 0"
    using c_le by (auto simp: p ddiv_def dmul_def)
  have i1: "0 < L \<longrightarrow>
              impact_score s
                = min 100 (dmul (dmul (ddiv (real (lines_added s + lines_removed s)) (real L))
                                   100) (real n))"
    by (simp only: i f) (simp add: mL)
  have i0: "L = 0 \<longrightarrow> impact_score s = 0"
    using l_le by (auto simp: i ddiv_def dmul_def)
  have c1: "consistency_score s
              = (if 1 \<le> total_commits s
                 then min 100 (dmul (ddiv (real (total_commits s)) 30) 100) else 0)"
    by (simp only: c f) simp
  have co1: "collaboration_score s = min 100 (25 * real (length (expertise_areas s)))"
    by (simp add: co f mult.commute)
  have pc: "0 < T \<longrightarrow>
              \<bar>productivity_score s
                 - min 100 (real (total_commits s) / real T * 100 * real n)\<bar> \<le> 1 / 2 ^ 43"
  proof
    assume T: "0 < T"
    from p1 T have "productivity_score s
        = min 100 (dmul (dmul (ddiv (real (total_commits s)) (real T)) 100) (real n))"
      by simp
    then show "\<bar>productivity_score s
                 - min 100 (real (total_commits s) / real T * 100 * real n)\<bar> \<le> 1 / 2 ^ 43"
      using scaled_share_close [OF T, of "total_commits s" n] by (simp only:)
  qed
  have ic: "0 < L \<longrightarrow>
              \<bar>impact_score s
                 - min 100 (real (lines_added s + lines_removed s) / real L * 100 * real n)\<bar>
                \<le> 1 / 2 ^ 43"
  proof
    assume L: "0 < L"
    from i1 L have "impact_score s
        = min 100 (dmul (dmul (ddiv (real (lines_added s + lines_removed s)) (real L)) 100)
                     (real n))"
      by simp
    then show "\<bar>impact_score s
                 - min 100 (real (lines_added s + lines_removed s) / real L * 100 * real n)\<bar>
                \<le> 1 / 2 ^ 43"
      using scaled_share_close [OF L, of "lines_added s + lines_removed s" n] by (simp only:)
  qed
  have cc: "\<bar>consistency_score s - min 100 (real (total_commits s) / 30 * 100)\<bar> \<le> 1 / 2 ^ 43"
  proof (cases "1 \<le> total_commits s")
    case True
    with c1 have "consistency_score s = min 100 (dmul (ddiv (real (total_commits s)) 30) 100)"
      by simp
    then show ?thesis
      using consistency_close [of "total_commits s"] by (simp only:)
  next
    case False
    with c1 show ?thesis by simp
  qed
  have le: "productivity_score s \<le> 100" "impact_score s \<le> 100"
    "consistency_score s \<le> 100" "collaboration_score s \<le> 100"
    by (simp_all add: p i c co)
  have p90: "n = 10 \<and> 0 < T \<and> 10 * total_commits s = 9 * T \<longrightarrow> productivity_score s = 100"
  proof (intro impI, elim conjE)
    assume n: "n = 10" and T: "0 < T" and e: "10 * total_commits s = 9 * T"
    have "productivity_score s
            = min 100 (dmul (dmul (ddiv (real (total_commits dev)) (real T)) 100) 10)"
      by (simp only: p n mT [OF T] of_nat_numeral)
    then show "productivity_score s = 100"
      using ninety_share [OF T e [unfolded f]] by (simp only:)
  qed
  have i90: "n = 10 \<and> 0 < L \<and> 10 * (lines_added s + lines_removed s) = 9 * L
               \<longrightarrow> impact_score s = 100"
  proof (intro impI, elim conjE)
    assume n: "n = 10" and L: "0 < L" and e: "10 * (lines_added s + lines_removed s) = 9 * L"
    have "impact_score s
            = min 100 (dmul (dmul (ddiv (real (lines_added dev + lines_removed dev)) (real L))
                               100) 10)"
      by (simp only: i n mL [OF L] of_nat_numeral)
    then show "impact_score s = 100"
      using ninety_share [OF L e [unfolded f]] by (simp only:)
  qed
  show ?thesis
    unfolding Let_def T_def [symmetric] L_def [symmetric] n_def [symmetric]
    using p1 p0 i1 i0 c1 co1 pc ic cc le p90 i90 by blast
qed

theorem component_scores_witness:
  "\<exists>s \<in> set (scorecards cohort_of_ten Productivity).
     total_commits s = 9 \<and> productivity_score s = 100 \<and> impact_score s = 100
     \<and> consistency_score s = 30 \<and> collaboration_score s = 50"
proof -
  have "lead_developer \<in> set cohort_of_ten"
    by (simp add: cohort_of_ten_def)
  from scorecards_contains [OF this, of Productivity] obtain i r
    where m: "(scorecard_of cohort_of_ten (totalCommits_of cohort_of_ten)
                 (totalLinesChanged_of cohort_of_ten) i lead_developer)\<lparr>rank := r\<rparr>
               \<in> set (scorecards cohort_of_ten Productivity)" (is "?s \<in> _")
    by blast
  have n: "length cohort_of_ten = 10"
    by (simp add: cohort_of_ten_def)
  have T: "sum_list (map total_commits cohort_of_ten) = 10"
    and L: "sum_list (map (\<lambda>dev. lines_added dev + lines_removed dev) cohort_of_ten) = 10"
    by (simp_all add: cohort_of_ten_def lead_developer_def minor_developer_def
        idle_developer_def sum_list_replicate)
  have c: "total_commits ?s = 9" "lines_added ?s = 5" "lines_removed ?s = 4"
    "length (expertise_areas ?s) = 2"
    by (simp_all add: scorecard_of_def Let_def lead_developer_def)
  have k: "min 100 (dmul (ddiv 9 30) 100) = 30"
    by code_simp
  from component_scores [OF m] have
    "productivity_score ?s = 100 \<and> impact_score ?s = 100
     \<and> consistency_score ?s = 30 \<and> collaboration_score ?s = 50"
    unfolding Let_def n T L c by (simp add: k)
  with m c(1) show ?thesis
    by blast
qed

text \<open>
  The claim as the specification states it, with the exact value of the formula, fails: in a
  cohort of three developers with one commit each, \<open>1 / 3\<close> rounds to a double below a third,
  and \<open>(1 / 3) * 100 * 3\<close> is \<open>100 - 2 ^ -46\<close> (printed as 99.99999999999999), not
  \<open>min(100, 100) = 100\<close>.
\<close>

theorem component_scores_counterexample:
  "productivity_score (hd (scorecards three_equal Productivity)) = 100 - 1 / 2 ^ 46
   \<and> productivity_score (hd (scorecards three_equal Productivity))
       \<noteq> min 100 (real 1 / real 3 * 100 * real 3)
   \<and> total_commits (hd (scorecards three_equal Productivity)) = 1
   \<and> sum_list (map total_commits three_equal) = 3 \<and> length three_equal = 3"
proof -
  have ne: "three_equal \<noteq> []" and len: "length three_equal = 3"
    and all: "set three_equal = {one_commit_developer}"
    by (simp_all add: three_equal_def)
  have T: "totalCommits_of three_equal = 3"
    by (simp add: totalCommits_of_sum three_equal_def one_commit_developer_def sum_list_replicate)
  from hd_scorecards [OF ne, of Productivity] obtain i r where
    h: "hd (scorecards three_equal Productivity)
          = (scorecard_of three_equal (totalCommits_of three_equal)
               (totalLinesChanged_of three_equal) i one_commit_developer)\<lparr>rank := r\<rparr>"
    unfolding all by blast
  have v: "min 100 (dmul (dmul (ddiv 1 3) 100) 3) = 100 - 1 / 2 ^ 46"
    by code_simp
  have p: "productivity_score (hd (scorecards three_equal Productivity)) = 100 - 1 / 2 ^ 46"
    unfolding h by (simp add: scorecard_of_def Let_def T len one_commit_developer_def v)
  have c: "total_commits (hd (scorecards three_equal Productivity)) = 1"
    unfolding h by (simp add: scorecard_of_def Let_def one_commit_developer_def)
  have "sum_list (map total_commits three_equal) = 3"
    using T by (simp only: totalCommits_of_sum)
  with p c len show ?thesis
    by simp
qed

text \<open>
  Claim C4, as the code computes it. The letter grade of every scorecard is the average of
  its four component scores sent through the thresholds: at least 90 is A+, at least 80 is
  A, at least 70 is B+, at least 60 is B, at least 50 is C+, at least 40 is C, anything lower
  is D; where the average is \<open>(productivity + impact + consistency + collaboration) / 4\<close>
  evaluated in doubles, each of the three sums and the division rounded, which is within
  \<open>2 ^ -43\<close> of the arithmetic mean of the four scores.
\<close>

theorem overall_grade_thresholds:
  assumes "s \<in> set (scorecards developers sortBy)"
  shows "(let average = ddiv (dadd (dadd (dadd (productivity_score s) (impact_score s))
                                      (consistency_score s)) (collaboration_score s)) 4
          in (90 \<le> average \<longrightarrow> overall_grade s = ''A+'')
           \<and> (80 \<le> average \<and> average < 90 \<longrightarrow> overall_grade s = ''A'')
           \<and> (70 \<le> average \<and> average < 80 \<longrightarrow> overall_grade s = ''B+'')
           \<and> (60 \<le> average \<and> average < 70 \<longrightarrow> overall_grade s = ''B'')
           \<and> (50 \<le> average \<and> average < 60 \<longrightarrow> overall_grade s = ''C+'')
           \<and> (40 \<le> average \<and> average < 50 \<longrightarrow> overall_grade s = ''C'')
           \<and> (average < 40 \<longrightarrow> overall_grade s = ''D'')
           \<and> \<bar>average - (productivity_score s + impact_score s + consistency_score s
                             + collaboration_score s) / 4\<bar> \<le> 1 / 2 ^ 43)"
proof -
  from scorecards_elem [OF assms] obtain dev i r where
    s: "s = (scorecard_of developers (totalCommits_of developers)
               (totalLinesChanged_of developers) i dev)\<lparr>rank := r\<rparr>"
    by blast
  have g: "overall_grade s
          = grade_of_average
              (ddiv (dadd (dadd (dadd (productivity_score s) (impact_score s))
                             (consistency_score s)) (collaboration_score s)) 4)"
    by (simp add: s scorecard_of_def Let_def)
  have "\<bar>ddiv (dadd (dadd (dadd (productivity_score s) (impact_score s))
                        (consistency_score s)) (collaboration_score s)) 4
          - (productivity_score s + impact_score s + consistency_score s
               + collaboration_score s) / 4\<bar> \<le> 1 / 2 ^ 43"
    by (rule average_close) (rule scorecard_of_range [OF s])+
  with g show ?thesis
    by (simp add: grade_of_average_def Let_def)
qed

theorem overall_grade_thresholds_witness:
  "\<exists>s \<in> set (scorecards cohort_of_ten Productivity).
     productivity_score s = 100 \<and> impact_score s = 100 \<and> consistency_score s = 30
     \<and> collaboration_score s = 50 \<and> overall_grade s = ''B+''"
proof -
  have "lead_developer \<in> set cohort_of_ten"
    by (simp add: cohort_of_ten_def)
  from scorecards_contains [OF this, of Productivity] obtain i r
    where m: "(scorecard_of cohort_of_ten (totalCommits_of cohort_of_ten)
                 (totalLinesChanged_of cohort_of_ten) i lead_developer)\<lparr>rank := r\<rparr>
               \<in> set (scorecards cohort_of_ten Productivity)" (is "?s \<in> _")
    by blast
  have T: "totalCommits_of cohort_of_ten = 10" and L: "totalLinesChanged_of cohort_of_ten = 10"
    by (simp_all add: totalCommits_of_sum totalLinesChanged_of_sum cohort_of_ten_def
        lead_developer_def minor_developer_def idle_developer_def sum_list_replicate)
  have n: "length cohort_of_ten = 10"
    by (simp add: cohort_of_ten_def)
  have v: "min 100 (dmul (dmul (ddiv 9 10) 100) 10) = 100" "min 100 (dmul (ddiv 9 30) 100) = 30"
    by code_simp+
  have s: "productivity_score ?s = 100" "impact_score ?s = 100" "consistency_score ?s = 30"
    "collaboration_score ?s = 50"
    by (simp_all add: scorecard_of_def Let_def T L n lead_developer_def v)
  have k: "ddiv (dadd (dadd (dadd 100 100) 30) 50) 4 = 70"
    by code_simp
  from overall_grade_thresholds [OF m] have "overall_grade ?s = ''B+''"
    unfolding Let_def s k by simp
  with m s show ?thesis
    by blast
qed

text \<open>
  The claim as the specification states it, with the arithmetic mean, fails: in a cohort of
  three developers with thirty commits each and no changed lines, the four scores are
  \<open>100 - 2 ^ -46\<close>, 0, 100 and 0; their mean is below 50, which the thresholds send to C;
  the sum of the first three, \<open>200 - 2 ^ -46\<close>, lies halfway between two doubles and rounds to
  200, the average the code computes is 50, and the grade is C+.
\<close>

theorem overall_grade_counterexample:
  "(productivity_score (hd (scorecards thirty_each TotalCommits))
      + impact_score (hd (scorecards thirty_each TotalCommits))
      + consistency_score (hd (scorecards thirty_each TotalCommits))
      + collaboration_score (hd (scorecards thirty_each TotalCommits))) / 4 < 50
   \<and> overall_grade (hd (scorecards thirty_each TotalCommits)) = ''C+''
   \<and> productivity_score (hd (scorecards thirty_each TotalCommits)) = 100 - 1 / 2 ^ 46
   \<and> impact_score (hd (scorecards thirty_each TotalCommits)) = 0
   \<and> consistency_score (hd (scorecards thirty_each TotalCommits)) = 100
   \<and> collaboration_score (hd (scorecards thirty_each TotalCommits)) = 0"
proof -
  have ne: "thirty_each \<noteq> []" and len: "length thirty_each = 3"
    and all: "set thirty_each = {thirty_commit_developer}"
    by (simp_all add: thirty_each_def)
  have T: "totalCommits_of thirty_each = 90" and L: "totalLinesChanged_of thirty_each = 0"
    by (simp_all add: totalCommits_of_sum totalLinesChanged_of_sum thirty_each_def
        thirty_commit_developer_def sum_list_replicate)
  from hd_scorecards [OF ne, of TotalCommits] obtain i r where
    h: "hd (scorecards thirty_each TotalCommits)
          = (scorecard_of thirty_each (totalCommits_of thirty_each)
               (totalLinesChanged_of thirty_each) i thirty_commit_developer)\<lparr>rank := r\<rparr>"
    unfolding all by blast
  have v: "min 100 (dmul (dmul (ddiv 30 90) 100) 3) = 100 - 1 / 2 ^ 46"
    "min 100 (dmul (dmul (ddiv 0 1) 100) 3) = 0"
    "min 100 (dmul (ddiv 30 30) 100) = 100"
    "ddiv (dadd (dadd (dadd (100 - 1 / 2 ^ 46) 0) 100) 0) 4 = 50"
    by code_simp+
  have s: "productivity_score (hd (scorecards thirty_each TotalCommits)) = 100 - 1 / 2 ^ 46"
    "impact_score (hd (scorecards thirty_each TotalCommits)) = 0"
    "consistency_score (hd (scorecards thirty_each TotalCommits)) = 100"
    "collaboration_score (hd (scorecards thirty_each TotalCommits)) = 0"
    unfolding h by (simp_all add: scorecard_of_def Let_def T L len thirty_commit_developer_def v)
  have g: "overall_grade (hd (scorecards thirty_each TotalCommits))
             = grade_of_average
                 (ddiv (dadd (dadd (dadd (100 - 1 / 2 ^ 46) 0) 100) 0) 4)"
    unfolding h
    by (simp add: scorecard_of_def Let_def T L len thirty_commit_developer_def v)
  have "overall_grade (hd (scorecards thirty_each TotalCommits)) = ''C+''"
    unfolding g v by (simp add: grade_of_average_def)
  with s show ?thesis
    by simp
qed

text \<open>
  Claim C5. For every developer list and every sort field, the scorecards, read as
  developers, are a permutation of the input; they are in descending order of the chosen
  field; the scorecards that share a value of that field come in the order their developers
  have in the input (the list before sorting is the input, scored in place); and the ranks
  are \<open>1, 2, ...\<close> in output order.
\<close>

theorem ranking_sorted_stable:
  "(let out = scorecards developers sortBy
    in mset (map Developer.truncate out) = mset developers
     \<and> sorted_wrt (\<lambda>a b. sort_value sortBy a \<ge> sort_value sortBy b) out
     \<and> map Developer.truncate (scored_developers developers) = developers
     \<and> (\<forall>v. map Developer.truncate (filter (\<lambda>s. sort_value sortBy s = v) out)
              = map Developer.truncate
                  (filter (\<lambda>s. sort_value sortBy s = v) (scored_developers developers)))
     \<and> map rank out = [1 ..< Suc (length developers)])"
  unfolding Let_def
  using scorecards_mset scorecards_sorted truncate_scored scorecards_stable scorecards_ranks
  by blast

theorem ranking_sorted_stable_witness:
  "mset (map Developer.truncate (scorecards cohort_of_ten TotalCommits)) = mset cohort_of_ten
   \<and> sorted_wrt (\<lambda>a b. sort_value TotalCommits a \<ge> sort_value TotalCommits b)
         (scorecards cohort_of_ten TotalCommits)
   \<and> map rank (scorecards cohort_of_ten TotalCommits) = [1 ..< Suc (length cohort_of_ten)]
   \<and> map name (scorecards (rev cohort_of_ten) TotalCommits)
       = ''Ada'' # ''Bob'' # replicate 8 ''Eve''"
proof -
  have "map name (scorecards (rev cohort_of_ten) TotalCommits)
          = ''Ada'' # ''Bob'' # replicate 8 ''Eve''"
    by code_simp
  with ranking_sorted_stable [of cohort_of_ten TotalCommits] show ?thesis
    unfolding Let_def by blast
qed

section \<open>Dates and commits (TimelineView.tsx, BusinessTimelineView.tsx)\<close>

text \<open>
  A JavaScript \<open>Date\<close>, read in local time: the year, the month counted from 0, the day of
  the month and the milliseconds since local midnight. The first three are what
  \<open>getFullYear\<close>, \<open>getMonth\<close> and \<open>getDate\<close> return.
\<close>

datatype JsDate = JsDate (getFullYear: int) (getMonth: nat) (getDate: nat) (msInDay: nat)

text \<open>
  The \<open>CommitData\<close> interface. \<open>timestamp\<close> holds the date that \<open>new Date(commit.timestamp)\<close>
  denotes: the backend sends ISO 8601 strings, which always parse. An optional field is an
  option.
\<close>

record CommitData =
  sha :: string
  message :: string
  author_name :: "string option"
  timestamp :: JsDate
  feature_summary :: "string option"
  business_impact :: "string option"

text \<open>The Gregorian calendar behind \<open>Date\<close>: months are counted from 0, so 1 is February.\<close>

definition leap_year :: "int \<Rightarrow> bool" where
  "leap_year y = (y mod 4 = 0 \<and> (y mod 100 \<noteq> 0 \<or> y mod 400 = 0))"

definition days_in_month :: "int \<Rightarrow> nat \<Rightarrow> nat" where
  "days_in_month y m =
     (if m = 1 then (if leap_year y then 29 else 28)
      else if m = 3 \<or> m = 5 \<or> m = 8 \<or> m = 10 then 30
      else 31)"

lemma days_in_month_ge: "28 \<le> days_in_month y m"
  by (simp add: days_in_month_def)

text \<open>
  \<open>Date.prototype.setMonth\<close> keeps the day of the month and lets the date overflow: day 31
  of a month of 30 days is day 1 of the next month (\<open>MakeDay\<close> of ECMA-262). \<open>roll_day\<close>
  carries the days beyond the end of a month into the months after it; \<open>setMonth\<close> first
  brings a month outside 0 to 11 into that range, carrying into the year.
\<close>

function roll_day :: "int \<Rightarrow> nat \<Rightarrow> nat \<Rightarrow> nat \<Rightarrow> JsDate" where
  "roll_day y m d t =
     (if d \<le> days_in_month y m then JsDate y m d t
      else if m = 11 then roll_day (y + 1) 0 (d - days_in_month y m) t
      else roll_day y (m + 1) (d - days_in_month y m) t)"
  by pat_completeness auto
termination
proof (relation "measure (\<lambda>(y, m, d, t). d)")
  show "wf (measure (\<lambda>(y, m, d, t). d))" by simp
next
  fix y :: int and m d t :: nat
  assume "\<not> d \<le> days_in_month y m"
  then show "((y + 1, 0, d - days_in_month y m, t), (y, m, d, t)) \<in> measure (\<lambda>(y, m, d, t). d)"
    using days_in_month_ge [of y m] by simp
next
  fix y :: int and m d t :: nat
  assume "\<not> d \<le> days_in_month y m"
  then show "((y, m + 1, d - days_in_month y m, t), (y, m, d, t)) \<in> measure (\<lambda>(y, m, d, t). d)"
    using days_in_month_ge [of y m] by simp
qed

declare roll_day.simps [simp del]

definition setMonth :: "JsDate \<Rightarrow> int \<Rightarrow> JsDate" where
  "setMonth date month =
     roll_day (getFullYear date + month div 12) (nat (month mod 12)) (getDate date)
       (msInDay date)"

text \<open>Commits for the examples: an author, a date and a time of day.\<close>

definition commit_by :: "string option \<Rightarrow> int \<Rightarrow> nat \<Rightarrow> nat \<Rightarrow> nat \<Rightarrow> CommitData" where
  "commit_by a y m d t =
     \<lparr> sha = ''c0ffee'', message = ''Fix parser'', author_name = a,
       timestamp = JsDate y m d t, feature_summary = None, business_impact = None \<rparr>"

definition commit_at :: "int \<Rightarrow> nat \<Rightarrow> nat \<Rightarrow> CommitData" where
  "commit_at y m d = commit_by (Some ''ann'') y m d 0"

section \<open>Activity heatmap (BusinessTimelineView.tsx)\<close>

text \<open>
  The key of a month bucket. The code builds the string \<open>`${year}-${month + 1}`\<close> with the
  month padded to two digits; the pair of the two numbers stands for that string, which
  determines them.
\<close>

type_synonym MonthKey = "int \<times> nat"

definition monthKey_of :: "JsDate \<Rightarrow> MonthKey" where
  "monthKey_of date = (getFullYear date, getMonth date + 1)"

text \<open>
  The label \<open>toLocaleDateString('en-US', {month: 'short', year: '2-digit'})\<close>: it shows
  the month and the last two digits of the year.
\<close>

definition monthLabel :: "JsDate \<Rightarrow> nat \<times> int" where
  "monthLabel date = (getMonth date, getFullYear date mod 100)"

record ActivityHeatmapData =
  month :: "nat \<times> int"
  commitCount :: nat
  intensity :: int

text \<open>
  The \<open>Map\<close> from month keys to counts is an association list in insertion order;
  \<open>monthlyCommits.get(monthKey) || 0\<close> reads it.
\<close>

definition get_or_zero :: "('k \<times> nat) list \<Rightarrow> 'k \<Rightarrow> nat" where
  "get_or_zero m k = (case map_of m k of None \<Rightarrow> 0 | Some n \<Rightarrow> n)"

text \<open>The body of \<open>commits.forEach\<close>: one more commit in the bucket of its month.\<close>

definition count_commit :: "CommitData \<Rightarrow> (MonthKey \<times> nat) list \<Rightarrow> (MonthKey \<times> nat) list" where
  "count_commit commit monthlyCommits =
     (let monthKey = monthKey_of (timestamp commit)
      in AList.update monthKey (get_or_zero monthlyCommits monthKey + 1) monthlyCommits)"

definition monthlyCommits_of :: "CommitData list \<Rightarrow> (MonthKey \<times> nat) list" where
  "monthlyCommits_of commits = fold count_commit commits []"

text \<open>\<open>Math.max(...Array.from(monthlyCommits.values()), 1)\<close>.\<close>

definition maxCommits_of :: "CommitData list \<Rightarrow> nat" where
  "maxCommits_of commits = foldr max (map snd (monthlyCommits_of commits)) 1"

text \<open>
  \<open>Math.round\<close> rounds to the nearest integer, a half upwards. The quotient is read as a
  real: the double the code computes rounds to the same integer, since a quotient of two
  counts times 4 is either exactly a half-integer or far from one.
\<close>

definition math_round :: "real \<Rightarrow> int" where
  "math_round x = \<lfloor>x + 1 / 2\<rfloor>"

text \<open>
  The dates of the \<open>for\<close> loop: \<open>now\<close> is the value of \<open>new Date()\<close>, \<open>startDate\<close> is
  \<open>now\<close> after \<open>setMonth(getMonth() - 11)\<close>, and step \<open>i\<close> copies \<open>startDate\<close> and sets
  its month to \<open>startDate.getMonth() + i\<close>.
\<close>

definition window_dates :: "JsDate \<Rightarrow> JsDate list" where
  "window_dates now =
     (let startDate = setMonth now (int (getMonth now) - 11)
      in map (\<lambda>i. setMonth startDate (int (getMonth startDate) + int i)) [0 ..< 12])"

text \<open>The \<open>heatmapData\<close> memo: one entry per date of the loop.\<close>

definition heatmapData :: "JsDate \<Rightarrow> CommitData list \<Rightarrow> ActivityHeatmapData list" where
  "heatmapData now commits =
     (let monthlyCommits = monthlyCommits_of commits;
          maxCommits = maxCommits_of commits
      in map (\<lambda>date.
                let monthKey = monthKey_of date;
                    commitCount = get_or_zero monthlyCommits monthKey
                in \<lparr> month = monthLabel date,
                     commitCount = commitCount,
                     intensity = math_round (real commitCount / real maxCommits * 4) \<rparr>)
           (window_dates now))"

text \<open>
  The trailing window in the claims' words: the twelve consecutive calendar months that end
  at a given month, oldest first. Months are numbered through \<open>12 * year + month - 1\<close>.
\<close>

definition month_index :: "MonthKey \<Rightarrow> int" where
  "month_index k = fst k * 12 + int (snd k) - 1"

definition month_of_index :: "int \<Rightarrow> MonthKey" where
  "month_of_index t = (t div 12, nat (t mod 12) + 1)"

definition trailing_window :: "MonthKey \<Rightarrow> MonthKey list" where
  "trailing_window k = map (\<lambda>i. month_of_index (month_index k - 11 + int i)) [0 ..< 12]"

text \<open>The number of commits whose timestamp falls in a month.\<close>

definition commits_in_month :: "CommitData list \<Rightarrow> MonthKey \<Rightarrow> nat" where
  "commits_in_month commits k = length (filter (\<lambda>c. monthKey_of (timestamp c) = k) commits)"

text \<open>The latest commit timestamp of a list, by date and time of day.\<close>

definition date_key :: "JsDate \<Rightarrow> int \<times> nat \<times> nat \<times> nat" where
  "date_key d = (getFullYear d, getMonth d, getDate d, msInDay d)"

definition latest_timestamp :: "CommitData list \<Rightarrow> JsDate option" where
  "latest_timestamp commits =
     fold (\<lambda>c best. case best of
                       None \<Rightarrow> Some (timestamp c)
                     | Some b \<Rightarrow> if date_key b < date_key (timestamp c) then Some (timestamp c)
                                else Some b)
       commits None"

text \<open>
  Clock readings and commit lists for the examples: 15 June 2024 with commits of spring
  2020, and with commits of the year before; and 31 December 2023 with one commit on
  15 March 2023.
\<close>

definition wall_clock :: JsDate where
  "wall_clock = JsDate 2024 5 15 930"

definition stale_commits :: "CommitData list" where
  "stale_commits = [commit_at 2020 4 10, commit_at 2020 3 2, commit_at 2020 4 11]"

definition recent_commits :: "CommitData list" where
  "recent_commits = [commit_at 2024 5 1, commit_at 2024 4 30, commit_at 2023 6 2, commit_at 2024 4 2,
                     commit_at 2023 5 30]"

definition month_end_clock :: JsDate where
  "month_end_clock = JsDate 2023 11 31 930"

definition march_commit :: "CommitData list" where
  "march_commit = [commit_at 2023 2 15]"

subsection \<open>Counting into buckets\<close>

lemma sum_list_indicator:
  "distinct ks \<Longrightarrow>
     sum_list (map (\<lambda>k. if x = k then 1 else 0) ks) = (if x \<in> set ks then 1 else (0::nat))"
  by (induction ks) auto

lemma sum_filter_lengths:
  assumes "distinct ks"
  shows "sum_list (map (\<lambda>k. length (filter (\<lambda>c. f c = k) cs)) ks)
           = length (filter (\<lambda>c. f c \<in> set ks) cs)"
proof (induction cs)
  case Nil
  show ?case by simp
next
  case (Cons c cs)
  have "sum_list (map (\<lambda>k. length (filter (\<lambda>c. f c = k) (c # cs))) ks)
          = sum_list (map (\<lambda>k. (if f c = k then 1 else 0)
                                 + length (filter (\<lambda>c. f c = k) cs)) ks)"
    by (rule arg_cong [where f = sum_list]) simp
  also have "\<dots> = (if f c \<in> set ks then 1 else 0)
                    + sum_list (map (\<lambda>k. length (filter (\<lambda>c. f c = k) cs)) ks)"
    by (simp only: sum_list_addf sum_list_indicator [OF assms])
  finally show ?case
    using Cons by simp
qed

lemma get_or_zero_count_commit:
  "get_or_zero (count_commit c m) k
     = get_or_zero m k + (if monthKey_of (timestamp c) = k then 1 else 0)"
  by (simp add: count_commit_def get_or_zero_def Let_def update_conv')

lemma get_or_zero_fold:
  "get_or_zero (fold count_commit cs m) k = get_or_zero m k + commits_in_month cs k"
  by (induction cs arbitrary: m) (simp_all add: get_or_zero_count_commit commits_in_month_def)

lemma get_or_zero_monthlyCommits:
  "get_or_zero (monthlyCommits_of commits) k = commits_in_month commits k"
  by (simp add: monthlyCommits_of_def get_or_zero_fold) (simp add: get_or_zero_def)

lemma foldr_max_ge: "(b::nat) \<le> foldr max xs b"
  by (induction xs) (simp_all add: max.coboundedI2)

lemma get_or_zero_le_max: "get_or_zero m k \<le> foldr max (map snd m) 1"
proof (induction m)
  case Nil
  show ?case by (simp add: get_or_zero_def)
next
  case (Cons p ps)
  then show ?case
    by (cases p) (auto simp: get_or_zero_def max.coboundedI2 split: option.splits)
qed

lemma maxCommits_ge_1: "1 \<le> maxCommits_of commits"
  unfolding maxCommits_of_def by (rule foldr_max_ge)

lemma commitCount_le_max: "get_or_zero (monthlyCommits_of commits) k \<le> maxCommits_of commits"
  unfolding maxCommits_of_def by (rule get_or_zero_le_max)

lemma math_round_ratio:
  fixes c m :: nat
  assumes "c \<le> m" and "1 \<le> m"
  shows "0 \<le> math_round (real c / real m * 4)" and "math_round (real c / real m * 4) \<le> 4"
proof -
  have "0 \<le> real c / real m" by simp
  then show "0 \<le> math_round (real c / real m * 4)"
    unfolding math_round_def by (simp add: zero_le_floor)
  have "real c / real m \<le> 1"
    using assms by (simp add: divide_le_eq_1)
  then have "real c / real m * 4 + 1 / 2 < 5" by simp
  then have "\<lfloor>real c / real m * 4 + 1 / 2\<rfloor> < 5"
    by (simp add: floor_less_iff)
  then show "math_round (real c / real m * 4) \<le> 4"
    unfolding math_round_def by simp
qed

lemma math_round_zero: "math_round (real 0 / real m * 4) = 0"
  by (simp add: math_round_def)

lemma window_dates_length: "length (window_dates now) = 12"
  by (simp add: window_dates_def Let_def)

lemma sum_commits_in_months:
  assumes "distinct ks"
  shows "sum_list (map (commits_in_month cs) ks)
           = length (filter (\<lambda>c. monthKey_of (timestamp c) \<in> set ks) cs)"
proof -
  have "commits_in_month cs = (\<lambda>k. length (filter (\<lambda>c. monthKey_of (timestamp c) = k) cs))"
    by (simp add: commits_in_month_def fun_eq_iff)
  then show ?thesis
    using sum_filter_lengths [OF assms, of "\<lambda>c. monthKey_of (timestamp c)" cs]
    by (simp only:)
qed

subsection \<open>Intensity\<close>

text \<open>
  Claim C10. For every commit list, the empty one included, the heatmap has its twelve
  entries; the normalising maximum is at least 1, so the division is never by zero; every
  count is at most that maximum; and every intensity is the rounded quotient, an integer from
  0 to 4, and 0 for a month without commits.
\<close>

theorem intensity_safe:
  "1 \<le> maxCommits_of commits
   \<and> length (heatmapData now commits) = 12
   \<and> (\<forall>e \<in> set (heatmapData now commits).
         commitCount e \<le> maxCommits_of commits
       \<and> intensity e = math_round (real (commitCount e) / real (maxCommits_of commits) * 4)
       \<and> (commitCount e = 0 \<longrightarrow> intensity e = 0)
       \<and> 0 \<le> intensity e \<and> intensity e \<le> 4)"
proof (intro conjI ballI)
  show "1 \<le> maxCommits_of commits" by (rule maxCommits_ge_1)
  show "length (heatmapData now commits) = 12"
    by (simp add: heatmapData_def Let_def window_dates_length)
next
  fix e assume "e \<in> set (heatmapData now commits)"
  then obtain date where c: "commitCount e = get_or_zero (monthlyCommits_of commits) (monthKey_of date)"
    and i: "intensity e = math_round (real (commitCount e) / real (maxCommits_of commits) * 4)"
    by (auto simp: heatmapData_def Let_def)
  show le: "commitCount e \<le> maxCommits_of commits"
    unfolding c by (rule commitCount_le_max)
  show "intensity e = math_round (real (commitCount e) / real (maxCommits_of commits) * 4)"
    by (rule i)
  show "commitCount e = 0 \<longrightarrow> intensity e = 0"
    using math_round_zero [of "maxCommits_of commits"] by (simp add: i)
  show "0 \<le> intensity e" "intensity e \<le> 4"
    unfolding i using math_round_ratio [OF le maxCommits_ge_1] by simp_all
qed

theorem intensity_safe_witness:
  "1 \<le> maxCommits_of []
   \<and> length (heatmapData (JsDate 2024 5 15 0) []) = 12
   \<and> list_all (\<lambda>e. commitCount e = 0 \<and> intensity e = 0) (heatmapData (JsDate 2024 5 15 0) [])"
proof -
  have z: "list_all (\<lambda>e. commitCount e = 0) (heatmapData (JsDate 2024 5 15 0) [])"
    by code_simp
  from intensity_safe [of "[]" "JsDate 2024 5 15 0"] z show ?thesis
    by (auto simp: list_all_iff)
qed

subsection \<open>The window\<close>

lemma roll_day_no_overflow: "d \<le> 28 \<Longrightarrow> roll_day y m d t = JsDate y m d t"
  using days_in_month_ge [of y m] by (subst roll_day.simps) simp

lemma setMonth_no_overflow:
  "getDate date \<le> 28 \<Longrightarrow>
     setMonth date k
       = JsDate (getFullYear date + k div 12) (nat (k mod 12)) (getDate date) (msInDay date)"
  by (simp add: setMonth_def roll_day_no_overflow)

lemma div_mod_carry:
  fixes y a b :: int
  shows "y + a div 12 + (a mod 12 + b) div 12 = (y * 12 + a + b) div 12"
    and "(a mod 12 + b) mod 12 = (y * 12 + a + b) mod 12"
proof -
  have e: "y * 12 + a + b = (a mod 12 + b) + (y + a div 12) * 12"
    using mult_div_mod_eq [of 12 a] by (simp add: algebra_simps)
  have "(y * 12 + a + b) div 12 = ((a mod 12 + b) + (y + a div 12) * 12) div 12"
    by (simp only: e)
  also have "\<dots> = (y + a div 12) + (a mod 12 + b) div 12"
    by (rule div_mult_self1) simp
  finally show "y + a div 12 + (a mod 12 + b) div 12 = (y * 12 + a + b) div 12"
    by (rule sym)
  have "(y * 12 + a + b) mod 12 = ((a mod 12 + b) + (y + a div 12) * 12) mod 12"
    by (simp only: e)
  also have "\<dots> = (a mod 12 + b) mod 12"
    by (rule mod_mult_self1)
  finally show "(a mod 12 + b) mod 12 = (y * 12 + a + b) mod 12"
    by (rule sym)
qed

lemma window_dates_no_overflow:
  assumes "getDate now \<le> 28"
  shows "map monthKey_of (window_dates now) = trailing_window (monthKey_of now)"
proof -
  define a where "a = int (getMonth now) - 11"
  define S where "S = setMonth now (int (getMonth now) - 11)"
  have S: "S = JsDate (getFullYear now + a div 12) (nat (a mod 12)) (getDate now) (msInDay now)"
    unfolding S_def a_def using assms by (rule setMonth_no_overflow)
  have Sd: "getDate S \<le> 28" and Sm: "int (getMonth S) = a mod 12"
    and Sy: "getFullYear S = getFullYear now + a div 12"
    using assms by (simp_all add: S)
  have idx: "month_index (monthKey_of now) - 11 = getFullYear now * 12 + a"
    by (simp add: month_index_def monthKey_of_def a_def)
  have key: "monthKey_of (setMonth S (int (getMonth S) + int i))
               = month_of_index (month_index (monthKey_of now) - 11 + int i)" for i
  proof -
    have "monthKey_of (setMonth S (int (getMonth S) + int i))
            = (getFullYear now + a div 12 + (a mod 12 + int i) div 12,
               nat ((a mod 12 + int i) mod 12) + 1)"
      unfolding setMonth_no_overflow [OF Sd] Sm Sy by (simp add: monthKey_of_def)
    also have "\<dots> = month_of_index (getFullYear now * 12 + a + int i)"
      unfolding month_of_index_def
      by (simp only: div_mod_carry [where y = "getFullYear now" and a = a and b = "int i"])
    finally show ?thesis
      by (simp only: idx)
  qed
  have "window_dates now = map (\<lambda>i. setMonth S (int (getMonth S) + int i)) [0 ..< 12]"
    by (simp only: window_dates_def Let_def S_def)
  then show ?thesis
    by (simp only: trailing_window_def map_map o_def key)
qed

lemma month_of_index_inj: "month_of_index s = month_of_index t \<Longrightarrow> s = t"
proof -
  assume "month_of_index s = month_of_index t"
  then have "s div 12 = t div 12" and "nat (s mod 12) = nat (t mod 12)"
    by (simp_all add: month_of_index_def)
  then have "s div 12 = t div 12" and "s mod 12 = t mod 12"
    by simp_all
  then show "s = t"
    by (metis mult_div_mod_eq)
qed

lemma distinct_trailing_window: "distinct (trailing_window k)"
  unfolding trailing_window_def
  by (rule iffD2 [OF distinct_map]) (auto simp: inj_on_def dest: month_of_index_inj)

lemma last_trailing_window:
  assumes "1 \<le> snd k" and "snd k \<le> 12"
  shows "last (trailing_window k) = k"
proof -
  have "[0 ..< 12] = [0 ..< 11] @ [11::nat]"
    by code_simp
  then have "last (trailing_window k) = month_of_index (month_index k)"
    by (simp add: trailing_window_def del: upt_rec_numeral)
  also have "\<dots> = k"
  proof -
    obtain a b where k: "k = (a, b)" by (cases k)
    define c where "c = int b - 1"
    from assms have c: "0 \<le> c" "c < 12" and b: "b = nat c + 1"
      by (simp_all add: k c_def)
    have "month_index k = c + a * 12"
      by (simp add: month_index_def k c_def)
    moreover have "(c + a * 12) div 12 = a" and "(c + a * 12) mod 12 = c"
      using c by simp_all
    ultimately show ?thesis
      by (simp add: month_of_index_def k b)
  qed
  finally show ?thesis .
qed

lemma commitCounts_of_heatmap:
  "map commitCount (heatmapData now commits)
     = map (commits_in_month commits) (map monthKey_of (window_dates now))"
  by (simp add: heatmapData_def Let_def get_or_zero_monthlyCommits o_def)

lemma heatmap_sum_without_overflow:
  assumes "getDate now \<le> 28"
  shows "sum_list (map commitCount (heatmapData now commits))
           = length (filter (\<lambda>c. monthKey_of (timestamp c)
                                    \<in> set (map monthKey_of (window_dates now))) commits)"
  unfolding commitCounts_of_heatmap window_dates_no_overflow [OF assms]
  by (rule sum_commits_in_months) (rule distinct_trailing_window)

text \<open>
  Claim C6, as the code has it. The window is anchored at the clock, not at the latest
  commit: when the clock's day of the month is at most 28, the twelve entries are the twelve
  consecutive calendar months that end at the clock's current month, each once and oldest
  first, and each entry's count is the number of commits of that month, 0 when there are
  none.
\<close>

theorem heatmap_window_at_clock:
  assumes "getDate now \<le> 28" and "getMonth now \<le> 11"
  shows "length (heatmapData now commits) = 12
       \<and> map monthKey_of (window_dates now) = trailing_window (monthKey_of now)
       \<and> distinct (trailing_window (monthKey_of now))
       \<and> last (trailing_window (monthKey_of now)) = monthKey_of now
       \<and> map commitCount (heatmapData now commits)
           = map (commits_in_month commits) (trailing_window (monthKey_of now))"
proof -
  have "length (heatmapData now commits) = 12"
    by (simp add: heatmapData_def Let_def window_dates_length)
  moreover have "last (trailing_window (monthKey_of now)) = monthKey_of now"
    using assms(2) by (intro last_trailing_window) (simp_all add: monthKey_of_def)
  moreover note window_dates_no_overflow [OF assms(1)] distinct_trailing_window
    commitCounts_of_heatmap [of now commits]
  ultimately show ?thesis
    by (simp only: simp_thms)
qed

theorem heatmap_window_at_clock_witness:
  "map monthKey_of (window_dates wall_clock)
     = [(2023, 7), (2023, 8), (2023, 9), (2023, 10), (2023, 11), (2023, 12),
        (2024, 1), (2024, 2), (2024, 3), (2024, 4), (2024, 5), (2024, 6)]
   \<and> map commitCount (heatmapData wall_clock recent_commits) = [1, 0, 0, 0, 0, 0, 0, 0, 0, 0, 2, 1]"
proof -
  have d: "getDate wall_clock \<le> 28" and m: "getMonth wall_clock \<le> 11"
    by (simp_all add: wall_clock_def)
  have w: "trailing_window (monthKey_of wall_clock)
             = [(2023, 7), (2023, 8), (2023, 9), (2023, 10), (2023, 11), (2023, 12),
                (2024, 1), (2024, 2), (2024, 3), (2024, 4), (2024, 5), (2024, 6)]"
    by code_simp
  have c: "map (commits_in_month recent_commits)
             [(2023, 7), (2023, 8), (2023, 9), (2023, 10), (2023, 11), (2023, 12),
              (2024, 1), (2024, 2), (2024, 3), (2024, 4), (2024, 5), (2024, 6)]
             = [1, 0, 0, 0, 0, 0, 0, 0, 0, 0, 2, 1]"
    by code_simp
  from heatmap_window_at_clock [OF d m, of recent_commits] show ?thesis
    unfolding w c by simp
qed

text \<open>
  The claim as the specification states it, with the window ending at the month of the
  latest commit, fails: on 15 June 2024, with commits whose latest is of 11 May 2020, the
  window is July 2023 to June 2024, not June 2019 to May 2020; May 2020 is not in it and every
  count is 0.
\<close>

theorem heatmap_window_counterexample:
  "latest_timestamp stale_commits = Some (JsDate 2020 4 11 0)
   \<and> map monthKey_of (window_dates wall_clock) \<noteq> trailing_window (2020, 5)
   \<and> (2020, 5) \<notin> set (map monthKey_of (window_dates wall_clock))
   \<and> map monthKey_of (window_dates wall_clock) = trailing_window (2024, 6)
   \<and> map commitCount (heatmapData wall_clock stale_commits) = replicate 12 0"
  by code_simp

text \<open>
  Claim C7. The counts of the twelve buckets add up to the number of commits whose month is
  in the window. That holds whenever the clock's day of the month is at most 28
  (\<open>heatmap_sum_without_overflow\<close>). On 31 December 2023 it does not: the loop's dates
  overflow the short months, March 2023 is in the window twice, and the one commit of that
  month is counted twice.
\<close>

theorem heatmap_sum_at_month_end:
  "map monthKey_of (window_dates month_end_clock)
     = [(2023, 1), (2023, 3), (2023, 3), (2023, 5), (2023, 5), (2023, 7),
        (2023, 7), (2023, 8), (2023, 10), (2023, 10), (2023, 12), (2023, 12)]
   \<and> sum_list (map commitCount (heatmapData month_end_clock march_commit)) = 2
   \<and> length (filter (\<lambda>c. monthKey_of (timestamp c)
                             \<in> set (map monthKey_of (window_dates month_end_clock)))
               march_commit) = 1"
  by code_simp

subsection \<open>Levels of activity\<close>

text \<open>
  The class names of a heatmap cell, chosen by the entry's intensity (the chain of
  conditionals in the \<open>className\<close> of the heatmap view).
\<close>

definition intensity_class :: "int \<Rightarrow> string" where
  "intensity_class i =
     (if i = 0 then ''bg-gray-100 border-gray-200 text-gray-400''
      else if i = 1 then ''bg-green-100 border-green-200 text-green-700''
      else if i = 2 then ''bg-green-200 border-green-300 text-green-800''
      else if i = 3 then ''bg-green-400 border-green-500 text-white''
      else ''bg-green-600 border-green-700 text-white'')"

text \<open>
  \<open>getActivityColor\<close> and \<open>getActivityTextColor\<close> of the summary view
  (DeveloperScorecard.tsx), which colour a cell by a level \<open>'high' | 'medium' | 'low'\<close>, and
  the \<open>className\<close> that view builds out of the two.
\<close>

definition getActivityColor :: "string \<Rightarrow> string" where
  "getActivityColor level =
     (if level = ''high'' then ''bg-green-600 border-green-700''
      else if level = ''medium'' then ''bg-green-400 border-green-500''
      else if level = ''low'' then ''bg-green-200 border-green-300''
      else ''bg-gray-100 border-gray-200'')"

definition getActivityTextColor :: "string \<Rightarrow> string" where
  "getActivityTextColor level =
     (if level = ''high'' then ''text-white''
      else if level = ''medium'' then ''text-white''
      else if level = ''low'' then ''text-green-800''
      else ''text-gray-400'')"

definition activity_class :: "string \<Rightarrow> string" where
  "activity_class level = getActivityColor level @ '' '' @ getActivityTextColor level"

text \<open>
  The level in the words of claim C8, to be compared with the intensity: the largest count of
  the window, and \<open>high\<close> from 75% of it, \<open>medium\<close> from 35% of it, \<open>low\<close> below that and for
  a month without commits.
\<close>

definition window_max :: "ActivityHeatmapData list \<Rightarrow> nat" where
  "window_max entries = foldr max (map commitCount entries) 0"

definition claimed_activity_level :: "nat \<Rightarrow> nat \<Rightarrow> string" where
  "claimed_activity_level commitCnt windowMax =
     (if commitCnt = 0 then ''low''
      else if 75 * windowMax \<le> 100 * commitCnt then ''high''
      else if 35 * windowMax \<le> 100 * commitCnt then ''medium''
      else ''low'')"

definition claimed_levels :: "ActivityHeatmapData list \<Rightarrow> string list" where
  "claimed_levels entries =
     map (\<lambda>e. claimed_activity_level (commitCount e) (window_max entries)) entries"

text \<open>
  Commits for the examples, on the clock of 15 June 2024: three months of 5, 6 and 8 commits;
  three months of 1, 3 and 5 commits; and a month of 8 commits in January 2020.
\<close>

definition busy_commits :: "CommitData list" where
  "busy_commits = replicate 5 (commit_at 2024 3 1) @ replicate 6 (commit_at 2024 4 1)
                    @ replicate 8 (commit_at 2024 5 1)"

definition quiet_commits :: "CommitData list" where
  "quiet_commits = replicate 1 (commit_at 2024 3 1) @ replicate 3 (commit_at 2024 4 1)
                     @ replicate 5 (commit_at 2024 5 1)"

definition old_peak :: "CommitData list" where
  "old_peak = replicate 8 (commit_at 2020 0 1)"

lemma math_round_ge_iff:
  fixes c m k :: nat
  assumes "1 \<le> m" and "1 \<le> k"
  shows "int k \<le> math_round (real c / real m * 4) \<longleftrightarrow> (2 * k - 1) * m \<le> 8 * c"
proof -
  have m: "0 < real m" using assms(1) by simp
  have "int k \<le> math_round (real c / real m * 4)
          \<longleftrightarrow> real k \<le> real c / real m * 4 + 1 / 2"
    unfolding math_round_def by (simp add: le_floor_iff)
  also have "\<dots> \<longleftrightarrow> (2 * real k - 1) * real m \<le> 8 * real c"
    using m by (simp add: field_simps)
  also have "(2 * real k - 1) * real m = real ((2 * k - 1) * m)"
    using assms(2) by (simp add: of_nat_diff)
  also have "real ((2 * k - 1) * m) \<le> 8 * real c \<longleftrightarrow> (2 * k - 1) * m \<le> 8 * c"
    by (metis of_nat_le_iff of_nat_mult of_nat_numeral)
  finally show ?thesis .
qed

lemma foldr_max_cases: "foldr max xs (b::nat) = b \<or> foldr max xs b \<in> set xs"
  by (induction xs) (auto simp: max_def)

lemma distinct_keys_fold:
  "distinct (map fst m) \<Longrightarrow> distinct (map fst (fold count_commit cs m))"
  by (induction cs arbitrary: m) (simp_all add: count_commit_def Let_def distinct_update)

lemma distinct_keys: "distinct (map fst (monthlyCommits_of commits))"
  unfolding monthlyCommits_of_def by (rule distinct_keys_fold) simp

lemma maxCommits_all_months: "commits_in_month commits k \<le> maxCommits_of commits"
  using commitCount_le_max [of commits k] by (simp only: get_or_zero_monthlyCommits)

lemma maxCommits_attained:
  assumes "commits \<noteq> []"
  shows "\<exists>k. commits_in_month commits k = maxCommits_of commits"
proof -
  from foldr_max_cases [of "map snd (monthlyCommits_of commits)" 1]
  consider "maxCommits_of commits = 1"
    | "maxCommits_of commits \<in> set (map snd (monthlyCommits_of commits))"
    unfolding maxCommits_of_def by blast
  then show ?thesis
  proof cases
    case 1
    from assms obtain c cs where cs: "commits = c # cs"
      by (cases commits) auto
    have "1 \<le> commits_in_month commits (monthKey_of (timestamp c))"
      by (simp add: commits_in_month_def cs)
    with maxCommits_all_months [of commits "monthKey_of (timestamp c)"] 1
    have "commits_in_month commits (monthKey_of (timestamp c)) = maxCommits_of commits"
      by simp
    then show ?thesis ..
  next
    case 2
    then obtain k where "(k, maxCommits_of commits) \<in> set (monthlyCommits_of commits)"
      by auto
    then have "map_of (monthlyCommits_of commits) k = Some (maxCommits_of commits)"
      using distinct_keys [of commits] by simp
    then have "get_or_zero (monthlyCommits_of commits) k = maxCommits_of commits"
      by (simp add: get_or_zero_def)
    then have "commits_in_month commits k = maxCommits_of commits"
      by (simp only: get_or_zero_monthlyCommits)
    then show ?thesis ..
  qed
qed

lemma maxCommits_empty: "maxCommits_of [] = 1"
  by (simp add: maxCommits_of_def monthlyCommits_of_def)

lemma class_of_level:
  "intensity_class 4 = activity_class ''high''"
  "intensity_class 3 = activity_class ''medium''"
  "intensity_class 2 = activity_class ''low''"
  by (simp_all add: intensity_class_def activity_class_def getActivityColor_def
      getActivityTextColor_def)

lemma class_inj:
  assumes "0 \<le> i" "i \<le> 4" "0 \<le> j" "j \<le> 4"
  shows "intensity_class i = intensity_class j \<longleftrightarrow> i = j"
proof -
  from assms have "i = 0 \<or> i = 1 \<or> i = 2 \<or> i = 3 \<or> i = 4"
    and "j = 0 \<or> j = 1 \<or> j = 2 \<or> j = 3 \<or> j = 4"
    by presburger+
  then show ?thesis
    by (elim disjE) (simp_all add: intensity_class_def)
qed

text \<open>
  Claim C8, as the code has it. The level of a month of the heatmap is its intensity, one of
  five, and it is set by the month's count \<open>c\<close> against the largest monthly count \<open>m\<close> of
  all the commits, inside the window or not (\<open>m\<close> is 1 when there are no commits):
  intensity 4 from 87.5% of \<open>m\<close>, 3 from 62.5%, 2 from 37.5%, 1 from 12.5% and 0 below
  that, so a month without commits has intensity 0. The cell of an entry carries the classes
  the summary view gives to \<open>high\<close> exactly at intensity 4, those of \<open>medium\<close> exactly at 3
  and those of \<open>low\<close> exactly at 2.
\<close>

theorem intensity_levels:
  assumes "e \<in> set (heatmapData now commits)"
  shows "(let c = commitCount e; m = maxCommits_of commits
          in (intensity e = 4 \<longleftrightarrow> 7 * m \<le> 8 * c)
           \<and> (intensity e = 3 \<longleftrightarrow> 5 * m \<le> 8 * c \<and> 8 * c < 7 * m)
           \<and> (intensity e = 2 \<longleftrightarrow> 3 * m \<le> 8 * c \<and> 8 * c < 5 * m)
           \<and> (intensity e = 1 \<longleftrightarrow> m \<le> 8 * c \<and> 8 * c < 3 * m)
           \<and> (intensity e = 0 \<longleftrightarrow> 8 * c < m)
           \<and> (c = 0 \<longrightarrow> intensity e = 0)
           \<and> (intensity_class (intensity e) = activity_class ''high'' \<longleftrightarrow> intensity e = 4)
           \<and> (intensity_class (intensity e) = activity_class ''medium'' \<longleftrightarrow> intensity e = 3)
           \<and> (intensity_class (intensity e) = activity_class ''low'' \<longleftrightarrow> intensity e = 2)
           \<and> (\<forall>k. commits_in_month commits k \<le> m)
           \<and> (commits \<noteq> [] \<longrightarrow> (\<exists>k. commits_in_month commits k = m))
           \<and> (commits = [] \<longrightarrow> m = 1))"
proof -
  define c where "c = commitCount e"
  define m where "m = maxCommits_of commits"
  from assms obtain date where
    cc: "c = get_or_zero (monthlyCommits_of commits) (monthKey_of date)"
    and i: "intensity e = math_round (real c / real m * 4)"
    by (auto simp: heatmapData_def Let_def c_def m_def)
  have m1: "1 \<le> m"
    unfolding m_def by (rule maxCommits_ge_1)
  have le: "c \<le> m"
    unfolding cc m_def by (rule commitCount_le_max)
  have ge: "int k \<le> intensity e \<longleftrightarrow> (2 * k - 1) * m \<le> 8 * c" if "1 \<le> k" for k
    unfolding i using m1 that by (rule math_round_ge_iff)
  have g1: "1 \<le> intensity e \<longleftrightarrow> m \<le> 8 * c"
    and g2: "2 \<le> intensity e \<longleftrightarrow> 3 * m \<le> 8 * c"
    and g3: "3 \<le> intensity e \<longleftrightarrow> 5 * m \<le> 8 * c"
    and g4: "4 \<le> intensity e \<longleftrightarrow> 7 * m \<le> 8 * c"
    using ge [of 1] ge [of 2] ge [of 3] ge [of 4] by simp_all
  have r: "0 \<le> intensity e" "intensity e \<le> 4"
    unfolding i using math_round_ratio [OF le m1] by simp_all
  have t4: "intensity e = 4 \<longleftrightarrow> 7 * m \<le> 8 * c"
    using g4 r by linarith
  have t3: "intensity e = 3 \<longleftrightarrow> 5 * m \<le> 8 * c \<and> 8 * c < 7 * m"
    using g3 g4 by linarith
  have t2: "intensity e = 2 \<longleftrightarrow> 3 * m \<le> 8 * c \<and> 8 * c < 5 * m"
    using g2 g3 by linarith
  have t1: "intensity e = 1 \<longleftrightarrow> m \<le> 8 * c \<and> 8 * c < 3 * m"
    using g1 g2 by linarith
  have t0: "intensity e = 0 \<longleftrightarrow> 8 * c < m"
    using g1 r by linarith
  have z: "c = 0 \<longrightarrow> intensity e = 0"
    using t0 m1 by simp
  have k4: "intensity_class (intensity e) = activity_class ''high'' \<longleftrightarrow> intensity e = 4"
    and k3: "intensity_class (intensity e) = activity_class ''medium'' \<longleftrightarrow> intensity e = 3"
    and k2: "intensity_class (intensity e) = activity_class ''low'' \<longleftrightarrow> intensity e = 2"
    unfolding class_of_level [symmetric] using r by (simp_all add: class_inj)
  have all: "\<forall>k. commits_in_month commits k \<le> m"
    unfolding m_def by (simp add: maxCommits_all_months)
  have att: "commits \<noteq> [] \<longrightarrow> (\<exists>k. commits_in_month commits k = m)"
    unfolding m_def using maxCommits_attained [of commits] by blast
  have emp: "commits = [] \<longrightarrow> m = 1"
    unfolding m_def by (simp add: maxCommits_empty)
  show ?thesis
    unfolding Let_def c_def [symmetric] m_def [symmetric]
    using t4 t3 t2 t1 t0 z k4 k3 k2 all att emp by blast
qed

theorem intensity_levels_witness:
  "commitCount (last (heatmapData wall_clock busy_commits)) = 8
   \<and> maxCommits_of busy_commits = 8
   \<and> commits_in_month busy_commits (2024, 6) = 8
   \<and> intensity (last (heatmapData wall_clock busy_commits)) = 4
   \<and> intensity_class (intensity (last (heatmapData wall_clock busy_commits)))
       = activity_class ''high''
   \<and> commitCount (hd (heatmapData wall_clock busy_commits)) = 0
   \<and> intensity (hd (heatmapData wall_clock busy_commits)) = 0"
proof -
  have "length (heatmapData wall_clock busy_commits) = 12"
    by (simp add: heatmapData_def Let_def window_dates_length)
  then have ne: "heatmapData wall_clock busy_commits \<noteq> []"
    by auto
  have v: "commitCount (last (heatmapData wall_clock busy_commits)) = 8"
    "maxCommits_of busy_commits = 8"
    "commits_in_month busy_commits (2024, 6) = 8"
    "commitCount (hd (heatmapData wall_clock busy_commits)) = 0"
    by code_simp+
  from intensity_levels [OF last_in_set [OF ne]]
  have "intensity (last (heatmapData wall_clock busy_commits)) = 4
        \<and> intensity_class (intensity (last (heatmapData wall_clock busy_commits)))
            = activity_class ''high''"
    unfolding Let_def v by (simp add: class_of_level)
  moreover from intensity_levels [OF hd_in_set [OF ne]]
  have "intensity (hd (heatmapData wall_clock busy_commits)) = 0"
    unfolding Let_def v by simp
  ultimately show ?thesis
    using v by blast
qed

text \<open>
  The claim as the specification states it, with three levels at 75% and 35% of the largest
  count of the window, fails. On 15 June 2024, with 5, 6 and 8 commits in April, May and
  June, the claim's levels are \<open>medium\<close>, \<open>high\<close> and \<open>high\<close>, and the intensities are 3, 3
  and 4: May, at 75% of the maximum, is shown as April is, with the classes of \<open>medium\<close>.
  With 1, 3 and 5 commits in those months and 8 commits in January 2020, the largest count
  of the window is 5 and the claim's levels are \<open>low\<close>, \<open>medium\<close> and \<open>high\<close>, but the
  intensities are 1, 2 and 3, measured against the 8 of January 2020; without that month
  they are 1, 2 and 4.
\<close>

theorem activity_level_counterexample:
  "map commitCount (heatmapData wall_clock busy_commits) = [0, 0, 0, 0, 0, 0, 0, 0, 0, 5, 6, 8]
   \<and> claimed_levels (heatmapData wall_clock busy_commits)
       = [''low'', ''low'', ''low'', ''low'', ''low'', ''low'', ''low'', ''low'', ''low'',
          ''medium'', ''high'', ''high'']
   \<and> map intensity (heatmapData wall_clock busy_commits) = [0, 0, 0, 0, 0, 0, 0, 0, 0, 3, 3, 4]
   \<and> intensity_class 3 = activity_class ''medium''
   \<and> intensity_class 3 \<noteq> activity_class ''high''
   \<and> map commitCount (heatmapData wall_clock (old_peak @ quiet_commits))
       = [0, 0, 0, 0, 0, 0, 0, 0, 0, 1, 3, 5]
   \<and> window_max (heatmapData wall_clock (old_peak @ quiet_commits)) = 5
   \<and> claimed_levels (heatmapData wall_clock (old_peak @ quiet_commits))
       = [''low'', ''low'', ''low'', ''low'', ''low'', ''low'', ''low'', ''low'', ''low'',
          ''low'', ''medium'', ''high'']
   \<and> map intensity (heatmapData wall_clock (old_peak @ quiet_commits))
       = [0, 0, 0, 0, 0, 0, 0, 0, 0, 1, 2, 3]
   \<and> map intensity (heatmapData wall_clock quiet_commits) = [0, 0, 0, 0, 0, 0, 0, 0, 0, 1, 2, 4]"
  by code_simp

section \<open>Daily timeline groups (TimelineView.tsx)\<close>

text \<open>
  \<open>toDateString\<close> names the calendar day of a date and drops the time; the string is
  determined by the year, the month and the day, and the triple stands for it.
\<close>

type_synonym DateString = "int \<times> nat \<times> nat"

definition toDateString :: "JsDate \<Rightarrow> DateString" where
  "toDateString d = (getFullYear d, getMonth d, getDate d)"

text \<open>
  The sort's comparator is \<open>new Date(b.date).getTime() - new Date(a.date).getTime()\<close>. The
  two dates are the local midnights of two days, so the difference has the sign of the
  comparison of the days as (year, month, day), and a sort uses only the sign.
  \<open>time_difference x y\<close> is that sign for \<open>getTime\<close> of \<open>x\<close> minus \<open>getTime\<close> of \<open>y\<close>;
  triples are compared lexicographically.
\<close>

definition time_difference :: "DateString \<Rightarrow> DateString \<Rightarrow> real" where
  "time_difference x y = (if x < y then - 1 else if x = y then 0 else 1)"

text \<open>The \<open>TimelineGroup\<close> interface.\<close>

record TimelineGroup =
  date :: DateString
  commits :: "CommitData list"
  uniqueAuthors :: "string list"

text \<open>
  The body of \<open>filteredCommits.forEach\<close>. The \<open>Map\<close> of groups is an association list in
  insertion order; a date without a group starts from the empty group, as \<open>groups.set\<close>
  does before \<open>groups.get\<close>. An author is recorded when \<open>author_name\<close> is truthy (present
  and not the empty string) and not yet in the group's list.
\<close>

definition add_to_group ::
  "CommitData \<Rightarrow> (DateString \<times> TimelineGroup) list \<Rightarrow> (DateString \<times> TimelineGroup) list" where
  "add_to_group commit groups =
     (let date = toDateString (timestamp commit);
          group = (case map_of groups date of
                     None \<Rightarrow> \<lparr> date = date, commits = [], uniqueAuthors = [] \<rparr>
                   | Some g \<Rightarrow> g);
          group1 = group\<lparr>commits := commits group @ [commit]\<rparr>;
          group2 = (case author_name commit of
                      None \<Rightarrow> group1
                    | Some a \<Rightarrow>
                        if a \<noteq> [] \<and> a \<notin> set (uniqueAuthors group1)
                        then group1\<lparr>uniqueAuthors := uniqueAuthors group1 @ [a]\<rparr>
                        else group1)
      in AList.update date group2 groups)"

text \<open>\<open>Array.from(groups.values())\<close>, and the memo: the groups sorted by date.\<close>

definition grouped :: "CommitData list \<Rightarrow> TimelineGroup list" where
  "grouped filteredCommits = map snd (fold add_to_group filteredCommits [])"

definition timelineGroups :: "CommitData list \<Rightarrow> TimelineGroup list" where
  "timelineGroups filteredCommits =
     js_sort (\<lambda>a b. time_difference (date b) (date a)) (grouped filteredCommits)"

text \<open>
  What the loop maintains. After the commits \<open>seen\<close>, the group of a date holds exactly the
  commits seen of that date, in order, and is not empty; its authors are the distinct
  non-empty author names of its commits; and a date has a group when a commit of it was seen.
\<close>

definition named_authors :: "CommitData list \<Rightarrow> string set" where
  "named_authors cs = {a. a \<noteq> [] \<and> (\<exists>c \<in> set cs. author_name c = Some a)}"

definition group_ok :: "CommitData list \<Rightarrow> DateString \<Rightarrow> TimelineGroup \<Rightarrow> bool" where
  "group_ok seen k g \<longleftrightarrow>
     date g = k \<and> commits g = filter (\<lambda>c. toDateString (timestamp c) = k) seen
     \<and> commits g \<noteq> [] \<and> distinct (uniqueAuthors g)
     \<and> set (uniqueAuthors g) = named_authors (commits g)"

definition groups_inv :: "CommitData list \<Rightarrow> (DateString \<times> TimelineGroup) list \<Rightarrow> bool" where
  "groups_inv seen groups \<longleftrightarrow>
     distinct (map fst groups)
     \<and> (\<forall>k. case map_of groups k of
               None \<Rightarrow> filter (\<lambda>c. toDateString (timestamp c) = k) seen = []
             | Some g \<Rightarrow> group_ok seen k g)"

text \<open>Six commits on three days, two of them without a usable author name.\<close>

definition sample_commits :: "CommitData list" where
  "sample_commits =
     [commit_by (Some ''ann'') 2024 0 31 900, commit_by (Some ''bob'') 2024 1 1 30,
      commit_by (Some ''ann'') 2024 0 31 1000, commit_by None 2024 1 1 45,
      commit_by (Some '''') 2023 11 25 7, commit_by (Some ''bob'') 2024 1 1 50]"

subsection \<open>Sorting with a comparator\<close>

lemma mset_insert_by: "mset (insert_by cmp x ys) = add_mset x (mset ys)"
  by (induction ys) simp_all

lemma mset_js_sort: "mset (js_sort cmp xs) = mset xs"
  by (induction xs) (simp_all add: js_sort_def mset_insert_by)

lemma sorted_insert_by:
  assumes total: "\<And>x y. cmp x y \<le> 0 \<or> cmp y x \<le> 0"
    and trans: "\<And>x y z. cmp x y \<le> 0 \<Longrightarrow> cmp y z \<le> 0 \<Longrightarrow> cmp x z \<le> 0"
    and "sorted_wrt (\<lambda>a b. cmp a b \<le> 0) ys"
  shows "sorted_wrt (\<lambda>a b. cmp a b \<le> 0) (insert_by cmp x ys)"
  using assms(3)
proof (induction ys)
  case Nil
  show ?case by simp
next
  case (Cons y ys)
  show ?case
  proof (cases "cmp x y \<le> 0")
    case True
    with Cons.prems show ?thesis
      by (auto intro: trans)
  next
    case False
    then have "cmp y x \<le> 0"
      using total [of x y] by simp
    with False Cons show ?thesis
      by (auto simp: set_mset_mset [symmetric] mset_insert_by simp del: set_mset_mset)
  qed
qed

lemma sorted_js_sort:
  assumes "\<And>x y. cmp x y \<le> 0 \<or> cmp y x \<le> 0"
    and "\<And>x y z. cmp x y \<le> 0 \<Longrightarrow> cmp y z \<le> 0 \<Longrightarrow> cmp x z \<le> 0"
  shows "sorted_wrt (\<lambda>a b. cmp a b \<le> 0) (js_sort cmp xs)"
proof (induction xs)
  case Nil
  show ?case by (simp add: js_sort_def)
next
  case (Cons x xs)
  have "js_sort cmp (x # xs) = insert_by cmp x (js_sort cmp xs)"
    by (simp add: js_sort_def)
  with Cons show ?case
    using sorted_insert_by [of cmp, OF assms] by simp
qed

lemma time_difference_le: "time_difference x y \<le> 0 \<longleftrightarrow> x \<le> y"
  by (auto simp: time_difference_def)

lemma named_authors_snoc:
  "named_authors (cs @ [c])
     = named_authors cs \<union> (case author_name c of None \<Rightarrow> {} | Some a \<Rightarrow> if a \<noteq> [] then {a} else {})"
  by (auto simp: named_authors_def split: option.splits)

lemma new_group_ok:
  assumes "case map_of groups (toDateString (timestamp c)) of
             None \<Rightarrow> filter (\<lambda>x. toDateString (timestamp x) = toDateString (timestamp c)) seen = []
           | Some g \<Rightarrow> group_ok seen (toDateString (timestamp c)) g"
  shows "\<exists>g. map_of (add_to_group c groups) (toDateString (timestamp c)) = Some g
             \<and> group_ok (seen @ [c]) (toDateString (timestamp c)) g"
proof (cases "map_of groups (toDateString (timestamp c))")
  case None
  with assms show ?thesis
    by (cases "author_name c")
      (auto simp: add_to_group_def Let_def update_conv' group_ok_def named_authors_def)
next
  case (Some g)
  with assms have "group_ok seen (toDateString (timestamp c)) g" by simp
  with Some show ?thesis
    by (cases "author_name c")
      (auto simp: add_to_group_def Let_def update_conv' group_ok_def named_authors_snoc)
qed

lemma other_group_unchanged:
  "k \<noteq> toDateString (timestamp c) \<Longrightarrow> map_of (add_to_group c groups) k = map_of groups k"
  by (simp add: add_to_group_def Let_def update_conv')

lemma group_ok_other:
  "k \<noteq> toDateString (timestamp c) \<Longrightarrow> group_ok (seen @ [c]) k g = group_ok seen k g"
  by (auto simp: group_ok_def)

lemma groups_inv_step:
  assumes "groups_inv seen groups"
  shows "groups_inv (seen @ [c]) (add_to_group c groups)"
proof -
  let ?d = "toDateString (timestamp c)"
  from assms have dist: "distinct (map fst groups)"
    unfolding groups_inv_def by (rule conjunct1)
  from assms have "\<forall>k. case map_of groups k of
                        None \<Rightarrow> filter (\<lambda>c. toDateString (timestamp c) = k) seen = []
                      | Some g \<Rightarrow> group_ok seen k g"
    unfolding groups_inv_def by (rule conjunct2)
  then have each: "case map_of groups k of
                     None \<Rightarrow> filter (\<lambda>c. toDateString (timestamp c) = k) seen = []
                   | Some g \<Rightarrow> group_ok seen k g" for k
    by (rule spec)
  have "distinct (map fst (add_to_group c groups))"
    using dist by (simp add: add_to_group_def Let_def distinct_update)
  moreover have "case map_of (add_to_group c groups) k of
                   None \<Rightarrow> filter (\<lambda>c. toDateString (timestamp c) = k) (seen @ [c]) = []
                 | Some g \<Rightarrow> group_ok (seen @ [c]) k g" for k
  proof (cases "k = ?d")
    case True
    from new_group_ok [OF each [of ?d]] show ?thesis
      unfolding True by auto
  next
    case False
    with each [of k] show ?thesis
      by (auto simp: other_group_unchanged group_ok_other split: option.splits)
  qed
  ultimately show ?thesis
    unfolding groups_inv_def by blast
qed

lemma groups_inv_fold:
  "groups_inv seen groups \<Longrightarrow> groups_inv (seen @ cs) (fold add_to_group cs groups)"
proof (induction cs arbitrary: seen groups)
  case Nil
  then show ?case by simp
next
  case (Cons c cs)
  from Cons.IH [OF groups_inv_step [OF Cons.prems, of c]] show ?case
    by simp
qed

lemma groups_inv_all: "groups_inv cs (fold add_to_group cs [])"
  using groups_inv_fold [of "[]" "[]" cs] by (simp add: groups_inv_def)

subsection \<open>The groups\<close>

lemma strictly_sorted_of_distinct:
  fixes f :: "'a \<Rightarrow> 'b::linorder"
  shows "sorted_wrt (\<lambda>a b. f b \<le> f a) xs \<Longrightarrow> distinct (map f xs)
           \<Longrightarrow> sorted_wrt (\<lambda>a b. f b < f a) xs"
proof (induction xs)
  case Nil
  show ?case by simp
next
  case (Cons a xs)
  have "f x < f a" if "x \<in> set xs" for x
  proof -
    from Cons.prems(1) that have "f x \<le> f a" by simp
    moreover from Cons.prems(2) have "f a \<notin> f ` set xs" by simp
    with that have "f x \<noteq> f a" by (metis imageI)
    ultimately show ?thesis by simp
  qed
  with Cons show ?case by simp
qed

lemma groups_elem:
  assumes "g \<in> set (grouped cs)"
  shows "group_ok cs (date g) g"
proof -
  let ?G = "fold add_to_group cs []"
  from assms obtain k where "(k, g) \<in> set ?G" by (auto simp: grouped_def)
  moreover have "distinct (map fst ?G)"
    using groups_inv_all [of cs] by (simp add: groups_inv_def)
  ultimately have "map_of ?G k = Some g" by simp
  moreover have "case map_of ?G k of
                   None \<Rightarrow> filter (\<lambda>c. toDateString (timestamp c) = k) cs = []
                 | Some g \<Rightarrow> group_ok cs k g"
    using groups_inv_all [of cs] unfolding groups_inv_def by blast
  ultimately have ok: "group_ok cs k g" by simp
  then have "date g = k" by (simp add: group_ok_def)
  with ok show ?thesis by simp
qed

lemma groups_dates: "map date (grouped cs) = map fst (fold add_to_group cs [])"
proof -
  have "date (snd p) = fst p" if "p \<in> set (fold add_to_group cs [])" for p
  proof -
    from that have "snd p \<in> set (grouped cs)" by (simp add: grouped_def)
    from groups_elem [OF this] that show ?thesis
      using groups_inv_all [of cs]
      by (cases p) (auto simp: group_ok_def groups_inv_def dest!: map_of_eq_Some_iff [THEN iffD2, rotated]
          split: option.splits)
  qed
  then show ?thesis by (simp add: grouped_def)
qed

lemma groups_cover:
  assumes "c \<in> set cs"
  shows "toDateString (timestamp c) \<in> set (map date (grouped cs))"
proof -
  let ?G = "fold add_to_group cs []"
  have "case map_of ?G (toDateString (timestamp c)) of
          None \<Rightarrow> filter (\<lambda>x. toDateString (timestamp x) = toDateString (timestamp c)) cs = []
        | Some g \<Rightarrow> group_ok cs (toDateString (timestamp c)) g"
    using groups_inv_all [of cs] unfolding groups_inv_def by blast
  moreover have "filter (\<lambda>x. toDateString (timestamp x) = toDateString (timestamp c)) cs \<noteq> []"
    using assms by (auto simp: filter_empty_conv)
  ultimately have "map_of ?G (toDateString (timestamp c)) \<noteq> None"
    by (auto split: option.splits)
  then show ?thesis
    unfolding groups_dates by (simp add: map_of_eq_None_iff)
qed

lemma groups_sizes:
  "sum_list (map (\<lambda>g. length (commits g)) (grouped cs)) = length cs"
proof -
  let ?U = "grouped cs"
  have "map (\<lambda>g. length (commits g)) ?U
          = map (\<lambda>k. length (filter (\<lambda>c. toDateString (timestamp c) = k) cs)) (map date ?U)"
    using groups_elem [of _ cs] by (simp add: group_ok_def)
  moreover have "distinct (map date ?U)"
    unfolding groups_dates using groups_inv_all [of cs] by (simp add: groups_inv_def)
  moreover have "filter (\<lambda>c. toDateString (timestamp c) \<in> set (map date ?U)) cs = cs"
    using groups_cover [of _ cs] by (simp only: filter_id_conv) blast
  ultimately show ?thesis
    using sum_filter_lengths [of "map date ?U" "\<lambda>c. toDateString (timestamp c)" cs]
    by (simp only:)
qed

lemma sum_list_js_sort:
  fixes f :: "'a \<Rightarrow> nat"
  shows "sum_list (map f (js_sort cmp xs)) = sum_list (map f xs)"
proof -
  have "mset (map f (js_sort cmp xs)) = mset (map f xs)"
    by (simp add: mset_js_sort)
  then show ?thesis
    by (metis sum_mset_sum_list)
qed

text \<open>
  Claim C9. The groups partition the filtered commits: no two groups have the same date,
  every filtered commit is in the group of its calendar date, and a group holds exactly the
  filtered commits of its date, so the group sizes add up to the number of filtered commits;
  a group's \<open>uniqueAuthors\<close> has no repetition and holds exactly the non-empty author names
  of its commits; and the groups come strictly newest first.
\<close>

theorem timeline_groups_partition:
  "(let groups = timelineGroups filteredCommits
    in distinct (map date groups)
     \<and> (\<forall>c \<in> set filteredCommits.
           \<exists>g \<in> set groups. date g = toDateString (timestamp c) \<and> c \<in> set (commits g))
     \<and> (\<forall>g \<in> set groups.
           commits g = filter (\<lambda>c. toDateString (timestamp c) = date g) filteredCommits)
     \<and> sum_list (map (\<lambda>g. length (commits g)) groups) = length filteredCommits
     \<and> (\<forall>g \<in> set groups.
           distinct (uniqueAuthors g)
         \<and> set (uniqueAuthors g)
             = {a. a \<noteq> [] \<and> (\<exists>c \<in> set (commits g). author_name c = Some a)})
     \<and> sorted_wrt (\<lambda>a b. date b < date a) groups)"
proof -
  let ?U = "grouped filteredCommits"
  let ?gs = "timelineGroups filteredCommits"
  have set_gs: "set ?gs = set ?U"
    by (simp only: timelineGroups_def set_js_sort)
  have ok: "group_ok filteredCommits (date g) g" if "g \<in> set ?gs" for g
    using that groups_elem unfolding set_gs by blast
  have "mset (map date ?gs) = mset (map date ?U)"
    by (simp add: timelineGroups_def mset_js_sort)
  moreover have "distinct (map date ?U)"
    unfolding groups_dates using groups_inv_all [of filteredCommits] by (simp add: groups_inv_def)
  ultimately have d: "distinct (map date ?gs)"
    by (metis mset_eq_imp_distinct_iff)
  have cover: "\<exists>g \<in> set ?gs. date g = toDateString (timestamp c) \<and> c \<in> set (commits g)"
    if c: "c \<in> set filteredCommits" for c
  proof -
    from groups_cover [OF c] obtain g where g: "g \<in> set ?U" and "date g = toDateString (timestamp c)"
      by auto
    moreover from groups_elem [OF g] c this(2) have "c \<in> set (commits g)"
      by (simp add: group_ok_def)
    ultimately show ?thesis
      unfolding set_gs by blast
  qed
  have parts: "commits g = filter (\<lambda>c. toDateString (timestamp c) = date g) filteredCommits"
    if "g \<in> set ?gs" for g
    using ok [OF that] by (simp add: group_ok_def)
  have sizes: "sum_list (map (\<lambda>g. length (commits g)) ?gs) = length filteredCommits"
    unfolding timelineGroups_def sum_list_js_sort by (rule groups_sizes)
  have authors: "distinct (uniqueAuthors g)
         \<and> set (uniqueAuthors g)
             = {a. a \<noteq> [] \<and> (\<exists>c \<in> set (commits g). author_name c = Some a)}"
    if "g \<in> set ?gs" for g
    using ok [OF that] by (simp add: group_ok_def named_authors_def)
  have "sorted_wrt (\<lambda>a b. time_difference (date b) (date a) \<le> 0) ?gs"
    unfolding timelineGroups_def
    by (rule sorted_js_sort) (auto simp: time_difference_le)
  then have "sorted_wrt (\<lambda>a b. date b \<le> date a) ?gs"
    by (simp only: time_difference_le)
  then have sorted: "sorted_wrt (\<lambda>a b. date b < date a) ?gs"
    using d by (rule strictly_sorted_of_distinct)
  show ?thesis
    unfolding Let_def using d cover parts sizes authors sorted by blast
qed

theorem timeline_groups_partition_witness:
  "map (\<lambda>g. (date g, length (commits g), uniqueAuthors g)) (timelineGroups sample_commits)
     = [((2024, 1, 1), 3, [''bob'']), ((2024, 0, 31), 2, [''ann'']), ((2023, 11, 25), 1, [])]
   \<and> distinct (map date (timelineGroups sample_commits))
   \<and> sum_list (map (\<lambda>g. length (commits g)) (timelineGroups sample_commits))
       = length sample_commits
   \<and> sorted_wrt (\<lambda>a b. date b < date a) (timelineGroups sample_commits)"
proof -
  have "map (\<lambda>g. (date g, length (commits g), uniqueAuthors g)) (timelineGroups sample_commits)
     = [((2024, 1, 1), 3, [''bob'']), ((2024, 0, 31), 2, [''ann'']), ((2023, 11, 25), 1, [])]"
    by code_simp
  with timeline_groups_partition [of sample_commits] show ?thesis
    unfolding Let_def by blast
qed

end
